theory Spec2Isabelle
  imports Main
begin

section \<open>The document: elements, attributes, class tokens\<close>

text \<open>
  The content script \<^verbatim>\<open>content.js\<close> reads and writes the live document through the DOM.
  The document is modelled as the table of its HTML elements in document order; an
  element is addressed by its index in the table and names its parent by index.
  Text and comment nodes are not in the table: no operation of the script reads them
  there. They do appear in the node lists of mutation records, which the script counts.
  Elements of other namespaces (an SVG \<^verbatim>\<open>a\<close>, whose \<^verbatim>\<open>href\<close> is not a string) are outside
  the model.

  An element's attributes are an ordered list of name/value pairs, as the DOM keeps them.
\<close>

type_synonym attributes = "(string \<times> string) list"

record element =
  tag :: string
  attrs :: attributes
  parent :: "nat option"

type_synonym document = "element list"

fun getAttribute :: "attributes \<Rightarrow> string \<Rightarrow> string option" where
  "getAttribute [] n = None"
| "getAttribute ((k, v) # as) n = (if k = n then Some v else getAttribute as n)"

text \<open>\<^verbatim>\<open>setAttribute\<close> replaces the value of an attribute in place, or appends a new one.\<close>

fun setAttribute :: "string \<Rightarrow> string \<Rightarrow> attributes \<Rightarrow> attributes" where
  "setAttribute n v [] = [(n, v)]"
| "setAttribute n v ((k, w) # as) =
     (if k = n then (k, v) # as else (k, w) # setAttribute n v as)"

text \<open>
  \<^verbatim>\<open>String.prototype.includes\<close>: the second string occurs in the first as a contiguous
  run of characters.
\<close>

fun starts_with :: "string \<Rightarrow> string \<Rightarrow> bool" where
  "starts_with s [] = True"
| "starts_with [] (c # cs) = False"
| "starts_with (x # xs) (c # cs) = (x = c \<and> starts_with xs cs)"

fun str_includes :: "string \<Rightarrow> string \<Rightarrow> bool" where
  "str_includes [] sub = (sub = [])"
| "str_includes (x # xs) sub = (starts_with (x # xs) sub \<or> str_includes xs sub)"

subsection \<open>The class attribute as a token set\<close>

text \<open>
  \<^verbatim>\<open>classList\<close> is the \<^verbatim>\<open>class\<close> attribute split on ASCII whitespace (tab, line feed,
  form feed, carriage return, space), duplicates dropped, first occurrence kept.
\<close>

definition is_ascii_whitespace :: "char \<Rightarrow> bool" where
  "is_ascii_whitespace c =
     (c = CHR 0x09 \<or> c = CHR 0x0A \<or> c = CHR 0x0C \<or> c = CHR 0x0D \<or> c = CHR '' '')"

text \<open>The first argument is the token being read, last character first.\<close>

fun split_on_ascii_whitespace :: "string \<Rightarrow> string \<Rightarrow> string list" where
  "split_on_ascii_whitespace cur [] = (if cur = [] then [] else [rev cur])"
| "split_on_ascii_whitespace cur (c # cs) =
     (if is_ascii_whitespace c
      then (if cur = [] then split_on_ascii_whitespace [] cs
            else rev cur # split_on_ascii_whitespace [] cs)
      else split_on_ascii_whitespace (c # cur) cs)"

definition ordered_set_append :: "'a list \<Rightarrow> 'a \<Rightarrow> 'a list" where
  "ordered_set_append ts t = (if t \<in> set ts then ts else ts @ [t])"

fun ordered_set :: "'a list \<Rightarrow> 'a list \<Rightarrow> 'a list" where
  "ordered_set acc [] = acc"
| "ordered_set acc (t # ts) = ordered_set (ordered_set_append acc t) ts"

definition parse_tokens :: "string \<Rightarrow> string list" where
  "parse_tokens s = ordered_set [] (split_on_ascii_whitespace [] s)"

fun serialize_tokens :: "string list \<Rightarrow> string" where
  "serialize_tokens [] = []"
| "serialize_tokens [t] = t"
| "serialize_tokens (t # u # ts) = t @ CHR '' '' # serialize_tokens (u # ts)"

definition classList :: "element \<Rightarrow> string list" where
  "classList e =
     (case getAttribute (attrs e) ''class'' of None \<Rightarrow> [] | Some v \<Rightarrow> parse_tokens v)"

definition classList_contains :: "element \<Rightarrow> string \<Rightarrow> bool" where
  "classList_contains e t = (t \<in> set (classList e))"

text \<open>
  \<^verbatim>\<open>classList.add(t)\<close> appends the token to the token set and writes the set back to the
  \<^verbatim>\<open>class\<close> attribute, tokens joined by one space.
\<close>

definition classList_add :: "string \<Rightarrow> element \<Rightarrow> element" where
  "classList_add t e =
     e\<lparr>attrs := setAttribute ''class''
                  (serialize_tokens (ordered_set_append (classList e) t)) (attrs e)\<rparr>"

text \<open>The reflecting IDL attributes \<^verbatim>\<open>target\<close> and \<^verbatim>\<open>rel\<close> write the content attribute.\<close>

definition set_target :: "string \<Rightarrow> element \<Rightarrow> element" where
  "set_target v e = e\<lparr>attrs := setAttribute ''target'' v (attrs e)\<rparr>"

definition set_rel :: "string \<Rightarrow> element \<Rightarrow> element" where
  "set_rel v e = e\<lparr>attrs := setAttribute ''rel'' v (attrs e)\<rparr>"

text \<open>
  \<^verbatim>\<open>link.href\<close> is the \<^verbatim>\<open>href\<close> attribute resolved against the document's base URL, and
  the empty string when the attribute is absent. URL resolution belongs to the browser;
  it is the parameter \<open>resolve\<close>.
\<close>

definition href :: "(string \<Rightarrow> string) \<Rightarrow> element \<Rightarrow> string" where
  "href resolve e =
     (case getAttribute (attrs e) ''href'' of None \<Rightarrow> [] | Some v \<Rightarrow> resolve v)"

section \<open>Selectors\<close>

text \<open>
  The selectors the script passes to \<^verbatim>\<open>querySelectorAll\<close> use type, class and attribute
  selectors, joined by the descendant combinator, in a comma-separated list. A compound
  selector is the list of its simple selectors; a complex selector is the list of its
  compounds, outermost ancestor first; a selector list is the list of its alternatives.
  Class names and attribute values are compared case-sensitively, as in an HTML document
  that is not in quirks mode.
\<close>

datatype simple_selector =
  Type string
| Class string
| HasAttr string
| AttrContains string string

type_synonym compound_selector = "simple_selector list"
type_synonym complex_selector = "compound_selector list"
type_synonym selector_list = "complex_selector list"

fun matches_simple :: "element \<Rightarrow> simple_selector \<Rightarrow> bool" where
  "matches_simple e (Type t) = (tag e = t)"
| "matches_simple e (Class c) = (c \<in> set (classList e))"
| "matches_simple e (HasAttr n) = (getAttribute (attrs e) n \<noteq> None)"
| "matches_simple e (AttrContains n v) =
     (case getAttribute (attrs e) n of
        None \<Rightarrow> False
      | Some x \<Rightarrow> v \<noteq> [] \<and> str_includes x v)"

definition matches_compound :: "element \<Rightarrow> compound_selector \<Rightarrow> bool" where
  "matches_compound e c = list_all (matches_simple e) c"

text \<open>
  The chain of ancestors of an element, nearest first. In document order a parent
  precedes its children; a parent index that does not is treated as no parent.
\<close>

function ancestors :: "document \<Rightarrow> nat \<Rightarrow> nat list" where
  "ancestors d i =
     (if i < length d
      then (case parent (d ! i) of
              None \<Rightarrow> []
            | Some p \<Rightarrow> if p < i then p # ancestors d p else [])
      else [])"
  by pat_completeness auto
termination
  by (relation "measure snd") auto

declare ancestors.simps [simp del]

text \<open>
  The remaining compounds of a complex selector, innermost first, against a chain of
  ancestors, nearest first: each compound must match some ancestor above the one that
  matched the compound before it.
\<close>

fun matches_ancestors :: "document \<Rightarrow> compound_selector list \<Rightarrow> nat list \<Rightarrow> bool" where
  "matches_ancestors d [] as = True"
| "matches_ancestors d (c # cs) [] = False"
| "matches_ancestors d (c # cs) (a # as) =
     ((matches_compound (d ! a) c \<and> matches_ancestors d cs as)
      \<or> matches_ancestors d (c # cs) as)"

definition matches_complex :: "document \<Rightarrow> nat \<Rightarrow> complex_selector \<Rightarrow> bool" where
  "matches_complex d i sel =
     (case rev sel of
        [] \<Rightarrow> False
      | c # cs \<Rightarrow> matches_compound (d ! i) c \<and> matches_ancestors d cs (ancestors d i))"

definition matches :: "document \<Rightarrow> selector_list \<Rightarrow> nat \<Rightarrow> bool" where
  "matches d sels i = list_ex (matches_complex d i) sels"

text \<open>\<^verbatim>\<open>document.querySelectorAll\<close>: the matching elements, in document order, as a static list.\<close>

definition querySelectorAll :: "document \<Rightarrow> selector_list \<Rightarrow> nat list" where
  "querySelectorAll d sels = filter (matches d sels) [0..<length d]"

section \<open>The link rewriter\<close>

text \<open>
  \<^verbatim>\<open>'a[href*="/url?q="], a[jsname], .g h3 a, .yuRUbf a'\<close> and \<^verbatim>\<open>'a[href*="/imgres"]'\<close>.
\<close>

definition searchLinks_selector :: selector_list where
  "searchLinks_selector =
     [ [[Type ''a'', AttrContains ''href'' ''/url?q='']],
       [[Type ''a'', HasAttr ''jsname'']],
       [[Class ''g''], [Type ''h3''], [Type ''a'']],
       [[Class ''yuRUbf''], [Type ''a'']] ]"

definition imageLinks_selector :: selector_list where
  "imageLinks_selector = [ [[Type ''a'', AttrContains ''href'' ''/imgres'']] ]"

definition marker :: string where
  "marker = ''modified-by-extension''"

text \<open>
  The three assignments both loops make to a link:
  \<^verbatim>\<open>link.target = '_blank'; link.rel = 'noopener noreferrer';
  link.classList.add('modified-by-extension')\<close>.
\<close>

definition mutate :: "element \<Rightarrow> element" where
  "mutate e = classList_add marker (set_rel ''noopener noreferrer'' (set_target ''_blank'' e))"

text \<open>The condition of the first loop, lines 38 to 41.\<close>

definition search_eligible :: "(string \<Rightarrow> string) \<Rightarrow> element \<Rightarrow> bool" where
  "search_eligible resolve e =
     (href resolve e \<noteq> []
      \<and> \<not> str_includes (href resolve e) ''google.com/search''
      \<and> \<not> str_includes (href resolve e) ''#''
      \<and> \<not> classList_contains e marker)"

text \<open>The condition of the second loop, line 63.\<close>

definition image_eligible :: "element \<Rightarrow> bool" where
  "image_eligible e = (\<not> classList_contains e marker)"

text \<open>One iteration of each \<^verbatim>\<open>forEach\<close> callback, on the document as it is at that moment.\<close>

definition search_step :: "(string \<Rightarrow> string) \<Rightarrow> nat \<Rightarrow> document \<Rightarrow> document" where
  "search_step resolve link d =
     (if search_eligible resolve (d ! link) then d[link := mutate (d ! link)] else d)"

definition image_step :: "nat \<Rightarrow> document \<Rightarrow> document" where
  "image_step link d =
     (if image_eligible (d ! link) then d[link := mutate (d ! link)] else d)"

definition search_pass :: "(string \<Rightarrow> string) \<Rightarrow> document \<Rightarrow> document" where
  "search_pass resolve d =
     fold (search_step resolve) (querySelectorAll d searchLinks_selector) d"

definition image_pass :: "document \<Rightarrow> document" where
  "image_pass d = fold image_step (querySelectorAll d imageLinks_selector) d"

definition modifySearchResults :: "(string \<Rightarrow> string) \<Rightarrow> document \<Rightarrow> document" where
  "modifySearchResults resolve d = image_pass (search_pass resolve d)"

subsection \<open>Which links an invocation mutates\<close>

text \<open>
  The links on which the body of the \<^verbatim>\<open>if\<close> runs, in the order the loop reaches them.
  Each link is judged on the document as the iterations before it have left it.
\<close>

fun mutated_links :: "(element \<Rightarrow> bool) \<Rightarrow> nat list \<Rightarrow> document \<Rightarrow> nat list" where
  "mutated_links eligible [] d = []"
| "mutated_links eligible (link # links) d =
     (if eligible (d ! link)
      then link # mutated_links eligible links (d[link := mutate (d ! link)])
      else mutated_links eligible links d)"

definition search_mutated :: "(string \<Rightarrow> string) \<Rightarrow> document \<Rightarrow> nat list" where
  "search_mutated resolve d =
     mutated_links (search_eligible resolve) (querySelectorAll d searchLinks_selector) d"

definition image_mutated :: "document \<Rightarrow> nat list" where
  "image_mutated d = mutated_links image_eligible (querySelectorAll d imageLinks_selector) d"

definition modify_mutated :: "(string \<Rightarrow> string) \<Rightarrow> document \<Rightarrow> nat list" where
  "modify_mutated resolve d = search_mutated resolve d @ image_mutated (search_pass resolve d)"

section \<open>Change detection: timers, the mutation observer, the scroll listener\<close>

text \<open>
  The page as the script sees it between events: the document, the timers the script has
  set and that have not fired yet (handle and due time, in milliseconds; the callback is
  always \<^verbatim>\<open>modifySearchResults\<close>), the next timer handle the browser will hand out, the
  script's variable \<^verbatim>\<open>scrollTimeout\<close> (\<open>None\<close> while it is \<^verbatim>\<open>undefined\<close>), and the record of
  the timer callbacks that have run (handle and time).
\<close>

record page =
  doc :: document
  next_handle :: nat
  pending :: "(nat \<times> nat) list"
  scrollTimeout :: "nat option"
  fired :: "(nat \<times> nat) list"

text \<open>\<^verbatim>\<open>setTimeout(modifySearchResults, delay)\<close> at time \<open>now\<close>: the handle and the new page.\<close>

definition setTimeout :: "nat \<Rightarrow> nat \<Rightarrow> page \<Rightarrow> nat \<times> page" where
  "setTimeout now delay s =
     (next_handle s,
      s\<lparr>next_handle := next_handle s + 1,
        pending := pending s @ [(next_handle s, now + delay)]\<rparr>)"

text \<open>\<^verbatim>\<open>clearTimeout(h)\<close>; a handle that names no pending timer, or \<^verbatim>\<open>undefined\<close>, changes nothing.\<close>

definition clearTimeout :: "nat option \<Rightarrow> page \<Rightarrow> page" where
  "clearTimeout h s =
     (case h of
        None \<Rightarrow> s
      | Some k \<Rightarrow> s\<lparr>pending := filter (\<lambda>p. fst p \<noteq> k) (pending s)\<rparr>)"

text \<open>The scroll listener, lines 120 to 126, run at time \<open>now\<close>.\<close>

definition scroll_listener :: "nat \<Rightarrow> page \<Rightarrow> page" where
  "scroll_listener now s =
     (let s1 = clearTimeout (scrollTimeout s) s;
          (h, s2) = setTimeout now 200 s1
      in s2\<lparr>scrollTimeout := Some h\<rparr>)"

text \<open>
  A mutation record, with the fields the observer's callback can read. The nodes a
  \<^verbatim>\<open>childList\<close> record lists are elements, text nodes or comment nodes.
\<close>

datatype mutation_kind = Attributes | CharacterData | ChildList

datatype node = ElementNode element | TextNode string | CommentNode string

record mutation_record =
  mutation_type :: mutation_kind
  addedNodes :: "node list"
  removedNodes :: "node list"

text \<open>The observer's callback, lines 85 to 102, run at time \<open>now\<close> on one batch of records.\<close>

definition shouldModify :: "mutation_record list \<Rightarrow> bool" where
  "shouldModify mutations =
     fold (\<lambda>mutation b.
             if mutation_type mutation = ChildList \<and> length (addedNodes mutation) > 0
             then True else b)
       mutations False"

definition observer_callback :: "nat \<Rightarrow> mutation_record list \<Rightarrow> page \<Rightarrow> page" where
  "observer_callback now mutations s =
     (if shouldModify mutations then snd (setTimeout now 100 s) else s)"

text \<open>
  Time passes to \<open>now\<close>: the timers due by then fire in the order of their due times, each
  at its due time, each running \<^verbatim>\<open>modifySearchResults\<close> on the document.
\<close>

definition advance :: "(string \<Rightarrow> string) \<Rightarrow> nat \<Rightarrow> page \<Rightarrow> page" where
  "advance resolve now s =
     (let due = sort_key snd (filter (\<lambda>p. snd p \<le> now) (pending s))
      in s\<lparr>doc := fold (\<lambda>p. modifySearchResults resolve) due (doc s),
           pending := filter (\<lambda>p. \<not> snd p \<le> now) (pending s),
           fired := fired s @ due\<rparr>)"

text \<open>Scroll events at the given times, one after the other.\<close>

fun scroll_events :: "(string \<Rightarrow> string) \<Rightarrow> nat list \<Rightarrow> page \<Rightarrow> page" where
  "scroll_events resolve [] s = s"
| "scroll_events resolve (t # ts) s =
     scroll_events resolve ts (scroll_listener t (advance resolve t s))"

text \<open>A burst: each event comes less than 200ms after the one before it.\<close>

fun burst :: "nat list \<Rightarrow> bool" where
  "burst [] = True"
| "burst [t] = True"
| "burst (t # u # ts) = (t \<le> u \<and> u < t + 200 \<and> burst (u # ts))"

text \<open>Batches of mutation records delivered at the given times, one after the other.\<close>

fun mutation_batches :: "(string \<Rightarrow> string) \<Rightarrow> (nat \<times> mutation_record list) list \<Rightarrow> page \<Rightarrow> page" where
  "mutation_batches resolve [] s = s"
| "mutation_batches resolve ((t, ms) # bs) s =
     mutation_batches resolve bs (observer_callback t ms (advance resolve t s))"

definition start :: "document \<Rightarrow> page" where
  "start d = \<lparr>doc = d, next_handle = 1, pending = [], scrollTimeout = None, fired = []\<rparr>"

section \<open>Repeated invocations and the marker invariant\<close>

text \<open>
  Every element that carries the marker has \<^verbatim>\<open>target\<close> and \<^verbatim>\<open>rel\<close> as the script sets them.
\<close>

definition marked_consistent :: "document \<Rightarrow> bool" where
  "marked_consistent d =
     list_all (\<lambda>e. classList_contains e marker \<longrightarrow>
                 getAttribute (attrs e) ''target'' = Some ''_blank''
                 \<and> getAttribute (attrs e) ''rel'' = Some ''noopener noreferrer'') d"

text \<open>The document after \<open>n\<close> invocations, and the links they mutated, in order.\<close>

fun invocations :: "(string \<Rightarrow> string) \<Rightarrow> nat \<Rightarrow> document \<Rightarrow> document" where
  "invocations resolve 0 d = d"
| "invocations resolve (Suc n) d = invocations resolve n (modifySearchResults resolve d)"

fun invocations_mutated :: "(string \<Rightarrow> string) \<Rightarrow> nat \<Rightarrow> document \<Rightarrow> nat list" where
  "invocations_mutated resolve 0 d = []"
| "invocations_mutated resolve (Suc n) d =
     modify_mutated resolve d @ invocations_mutated resolve n (modifySearchResults resolve d)"

section \<open>An example page\<close>

text \<open>
  A results page: an organic result in the modern layout, a link back to the search
  endpoint, a link with a fragment, an image result, an image result that points at the
  search endpoint and has a fragment, a link that carries attributes of its own, and a
  link that carries the marker although its \<^verbatim>\<open>target\<close> and \<^verbatim>\<open>rel\<close> have been reset.
\<close>

definition example_resolve :: "string \<Rightarrow> string" where
  "example_resolve v = (if starts_with v ''/'' then ''https://www.google.com'' @ v else v)"

definition fresh_page :: document where
  "fresh_page =
     [ \<lparr>tag = ''div'', attrs = [(''class'', ''g'')], parent = None\<rparr>,
       \<lparr>tag = ''div'', attrs = [(''class'', ''yuRUbf'')], parent = Some 0\<rparr>,
       \<lparr>tag = ''a'', attrs = [(''href'', ''https://example.com/page'')], parent = Some 1\<rparr>,
       \<lparr>tag = ''a'', attrs = [(''jsname'', ''x''), (''href'', ''https://www.google.com/search?q=x'')],
         parent = Some 0\<rparr>,
       \<lparr>tag = ''a'', attrs = [(''jsname'', ''y''), (''href'', ''https://example.org/doc#section'')],
         parent = Some 0\<rparr>,
       \<lparr>tag = ''a'', attrs = [(''href'', ''/imgres?imgurl=cat.png'')], parent = None\<rparr>,
       \<lparr>tag = ''a'',
         attrs = [(''jsname'', ''z''), (''href'', ''https://www.google.com/search?q=/imgres#top'')],
         parent = None\<rparr>,
       \<lparr>tag = ''h3'', attrs = [], parent = Some 0\<rparr>,
       \<lparr>tag = ''a'',
         attrs = [(''href'', ''https://example.net/''), (''rel'', ''nofollow''),
                  (''class'', ''fl  big fl''), (''data-ved'', ''2ah''), (''target'', ''_self'')],
         parent = Some 7\<rparr> ]"

definition tampered_link :: element where
  "tampered_link =
     \<lparr>tag = ''a'',
      attrs = [(''jsname'', ''w''), (''href'', ''/imgres?imgurl=dog.png''),
               (''class'', ''modified-by-extension''), (''target'', ''_self'')],
      parent = None\<rparr>"

definition example_page :: document where
  "example_page = fresh_page @ [tampered_link]"

text \<open>
  Three batches of mutation records: one that only removes a node, one that changes an
  attribute and adds an element, and one that adds nothing but a text node, delivered
  before the timer of the batch before it is due.
\<close>

definition example_batches :: "(nat \<times> mutation_record list) list" where
  "example_batches =
     [ (0, [\<lparr>mutation_type = ChildList, addedNodes = [],
             removedNodes = [ElementNode tampered_link]\<rparr>]),
       (10, [\<lparr>mutation_type = Attributes, addedNodes = [], removedNodes = []\<rparr>,
             \<lparr>mutation_type = ChildList, addedNodes = [ElementNode tampered_link],
               removedNodes = []\<rparr>]),
       (40, [\<lparr>mutation_type = ChildList, addedNodes = [TextNode ''More results''],
               removedNodes = []\<rparr>]) ]"

section \<open>Auxiliary notions for the proofs\<close>

text \<open>
  The state between two scroll events of a burst that began when the next handle was \<open>N\<close>:
  of the timers set since then, exactly the one of the latest scroll event is pending, and
  none has fired.
\<close>

definition in_burst :: "nat \<Rightarrow> nat \<Rightarrow> nat \<Rightarrow> page \<Rightarrow> bool" where
  "in_burst N k t s =
     (next_handle s = N + k + 1
      \<and> scrollTimeout s = Some (N + k)
      \<and> filter (\<lambda>p. N \<le> fst p) (pending s) = [(N + k, t + 200)]
      \<and> filter (\<lambda>p. N \<le> fst p) (fired s) = [])"

text \<open>
  What has happened on the way from the page \<open>s0\<close> to the page \<open>s\<close>: the timers fired on the
  way have each run \<^verbatim>\<open>modifySearchResults\<close> on the document, once, and every timer fired on
  the way or still pending was either pending in \<open>s0\<close> or has a handle from \<open>N\<close> on.
\<close>

definition since :: "(string \<Rightarrow> string) \<Rightarrow> page \<Rightarrow> nat \<Rightarrow> page \<Rightarrow> bool" where
  "since resolve s0 N s =
     (N \<le> next_handle s
      \<and> (\<exists>X. fired s = fired s0 @ X
             \<and> doc s = fold (\<lambda>p. modifySearchResults resolve) X (doc s0)
             \<and> (\<forall>p\<in>set X \<union> set (pending s). p \<in> set (pending s0) \<or> N \<le> fst p)))"

text \<open>
  The timers a run of mutation batches sets, the first with handle \<open>N\<close>: one for each batch
  for which the observer's callback finds \<^verbatim>\<open>shouldModify\<close> true, due 100ms after the batch.
\<close>

fun scheduled_rescans :: "nat \<Rightarrow> (nat \<times> mutation_record list) list \<Rightarrow> (nat \<times> nat) list" where
  "scheduled_rescans N [] = []"
| "scheduled_rescans N ((t, ms) # bs) =
     (if shouldModify ms then (N, t + 100) # scheduled_rescans (Suc N) bs
      else scheduled_rescans N bs)"

text \<open>A class token: not empty, no ASCII whitespace in it.\<close>

definition valid_token :: "string \<Rightarrow> bool" where
  "valid_token t = (t \<noteq> [] \<and> list_all (\<lambda>c. \<not> is_ascii_whitespace c) t)"

text \<open>
  The simple selectors whose verdict on an element cannot change when the script rewrites
  that element: they do not look at \<^verbatim>\<open>class\<close>, \<^verbatim>\<open>rel\<close> or \<^verbatim>\<open>target\<close>, except for a class other
  than the marker.
\<close>

fun stable_simple :: "simple_selector \<Rightarrow> bool" where
  "stable_simple (Type t) = True"
| "stable_simple (Class c) = (c \<noteq> marker)"
| "stable_simple (HasAttr n) = (n \<noteq> ''class'' \<and> n \<noteq> ''rel'' \<and> n \<noteq> ''target'')"
| "stable_simple (AttrContains n v) = (n \<noteq> ''class'' \<and> n \<noteq> ''rel'' \<and> n \<noteq> ''target'')"

definition stable_selector :: "selector_list \<Rightarrow> bool" where
  "stable_selector sels = list_all (list_all (list_all stable_simple)) sels"

text \<open>An element and what it may have become: itself, or itself rewritten.\<close>

definition alike :: "element \<Rightarrow> element \<Rightarrow> bool" where
  "alike e e' = (e' = e \<or> e' = mutate e)"

definition docs_alike :: "document \<Rightarrow> document \<Rightarrow> bool" where
  "docs_alike d d' = (length d' = length d \<and> (\<forall>i<length d. alike (d ! i) (d' ! i)))"

text \<open>The elements an invocation rewrites, read off the document it starts from.\<close>

definition rewritten :: "(string \<Rightarrow> string) \<Rightarrow> document \<Rightarrow> nat \<Rightarrow> bool" where
  "rewritten resolve d i =
     (matches d searchLinks_selector i \<and> search_eligible resolve (d ! i)
      \<or> matches d imageLinks_selector i \<and> image_eligible (d ! i))"

section \<open>Attributes and class tokens\<close>

lemma getAttribute_setAttribute:
  "getAttribute (setAttribute n v as) m = (if m = n then Some v else getAttribute as m)"
  by (induction as) auto

lemma split_tokens_valid:
  "list_all (\<lambda>c. \<not> is_ascii_whitespace c) cur \<Longrightarrow>
   list_all valid_token (split_on_ascii_whitespace cur s)"
  by (induction s arbitrary: cur) (auto simp: valid_token_def)

lemma split_token_prefix:
  "list_all (\<lambda>c. \<not> is_ascii_whitespace c) t \<Longrightarrow>
   split_on_ascii_whitespace cur (t @ s) = split_on_ascii_whitespace (rev t @ cur) s"
  by (induction t arbitrary: cur) auto

lemma space_is_whitespace: "is_ascii_whitespace (CHR '' '')"
  by (simp add: is_ascii_whitespace_def)

lemma split_serialize:
  "list_all valid_token ts \<Longrightarrow> split_on_ascii_whitespace [] (serialize_tokens ts) = ts"
proof (induction ts rule: serialize_tokens.induct)
  case 1
  then show ?case by simp
next
  case (2 t)
  then have "split_on_ascii_whitespace [] (t @ []) = split_on_ascii_whitespace (rev t @ []) []"
    unfolding valid_token_def by (intro split_token_prefix) simp
  with 2 show ?case by (simp add: valid_token_def)
next
  case (3 t u ts)
  then have t: "t \<noteq> []" "list_all (\<lambda>c. \<not> is_ascii_whitespace c) t"
    by (simp_all add: valid_token_def)
  have "split_on_ascii_whitespace [] (t @ CHR '' '' # serialize_tokens (u # ts))
        = split_on_ascii_whitespace (rev t @ []) (CHR '' '' # serialize_tokens (u # ts))"
    using t(2) by (rule split_token_prefix)
  also have "\<dots> = t # split_on_ascii_whitespace [] (serialize_tokens (u # ts))"
    using t(1) by (simp add: space_is_whitespace)
  finally show ?case using 3 by simp
qed

lemma ordered_set_distinct_id: "distinct (acc @ ts) \<Longrightarrow> ordered_set acc ts = acc @ ts"
  by (induction ts arbitrary: acc) (auto simp: ordered_set_append_def)

lemma set_ordered_set: "set (ordered_set acc ts) = set acc \<union> set ts"
  by (induction ts arbitrary: acc) (auto simp: ordered_set_append_def)

lemma distinct_ordered_set: "distinct acc \<Longrightarrow> distinct (ordered_set acc ts)"
  by (induction ts arbitrary: acc) (auto simp: ordered_set_append_def)

lemma parse_tokens_valid: "list_all valid_token (parse_tokens s)"
proof -
  have "list_all valid_token (split_on_ascii_whitespace [] s)"
    by (rule split_tokens_valid) simp
  then show ?thesis
    by (simp add: parse_tokens_def list_all_iff set_ordered_set)
qed

lemma distinct_parse_tokens: "distinct (parse_tokens s)"
  by (simp add: parse_tokens_def distinct_ordered_set)

lemma parse_serialize:
  "distinct ts \<Longrightarrow> list_all valid_token ts \<Longrightarrow> parse_tokens (serialize_tokens ts) = ts"
  by (simp add: parse_tokens_def split_serialize ordered_set_distinct_id)

lemma classList_valid: "list_all valid_token (classList e)"
  by (simp add: classList_def parse_tokens_valid split: option.splits)

lemma distinct_classList: "distinct (classList e)"
  by (simp add: classList_def distinct_parse_tokens split: option.splits)

lemma classList_attrs_update:
  "classList (e\<lparr>attrs := as\<rparr>)
   = (case getAttribute as ''class'' of None \<Rightarrow> [] | Some v \<Rightarrow> parse_tokens v)"
  by (simp add: classList_def)

lemma classList_add_tokens:
  assumes "valid_token t"
  shows "classList (classList_add t e) = ordered_set_append (classList e) t"
proof -
  have d: "distinct (ordered_set_append (classList e) t)"
    using distinct_classList [of e] by (simp add: ordered_set_append_def)
  have v: "list_all valid_token (ordered_set_append (classList e) t)"
    using classList_valid [of e] assms by (simp add: ordered_set_append_def)
  have "classList (classList_add t e)
        = parse_tokens (serialize_tokens (ordered_set_append (classList e) t))"
    by (simp add: classList_add_def classList_attrs_update getAttribute_setAttribute)
  with d v show ?thesis by (simp only: parse_serialize)
qed

lemma valid_marker: "valid_token marker"
  by (simp add: valid_token_def marker_def is_ascii_whitespace_def)

section \<open>What rewriting one element changes\<close>

lemma classList_set_target: "classList (set_target v e) = classList e"
  by (simp add: set_target_def classList_attrs_update getAttribute_setAttribute classList_def)

lemma classList_set_rel: "classList (set_rel v e) = classList e"
  by (simp add: set_rel_def classList_attrs_update getAttribute_setAttribute classList_def)

lemma classList_mutate: "classList (mutate e) = ordered_set_append (classList e) marker"
  by (simp add: mutate_def classList_add_tokens valid_marker classList_set_rel classList_set_target)

lemma tag_mutate: "tag (mutate e) = tag e"
  by (simp add: mutate_def classList_add_def set_rel_def set_target_def)

lemma parent_mutate: "parent (mutate e) = parent e"
  by (simp add: mutate_def classList_add_def set_rel_def set_target_def)

lemma getAttribute_mutate:
  "getAttribute (attrs (mutate e)) n =
     (if n = ''class'' then Some (serialize_tokens (ordered_set_append (classList e) marker))
      else if n = ''rel'' then Some ''noopener noreferrer''
      else if n = ''target'' then Some ''_blank''
      else getAttribute (attrs e) n)"
  by (simp add: mutate_def classList_add_def set_rel_def set_target_def
        getAttribute_setAttribute classList_attrs_update classList_def)

lemma href_mutate: "href resolve (mutate e) = href resolve e"
  by (simp add: href_def getAttribute_mutate)

lemma marked_mutate: "classList_contains (mutate e) marker"
  by (simp add: classList_contains_def classList_mutate ordered_set_append_def)

lemma mutate_changes: "\<not> classList_contains e marker \<Longrightarrow> mutate e \<noteq> e"
  using marked_mutate [of e] by auto

lemma not_search_eligible_mutate: "\<not> search_eligible resolve (mutate e)"
  by (simp add: search_eligible_def marked_mutate)

lemma not_image_eligible_mutate: "\<not> image_eligible (mutate e)"
  by (simp add: image_eligible_def marked_mutate)

lemma matches_simple_mutate:
  "stable_simple s \<Longrightarrow> matches_simple (mutate e) s = matches_simple e s"
  by (cases s) (auto simp: classList_mutate ordered_set_append_def getAttribute_mutate tag_mutate)


lemma alike_parent: "alike e e' \<Longrightarrow> parent e' = parent e"
  by (auto simp: alike_def parent_mutate)

lemma alike_matches_compound:
  "alike e e' \<Longrightarrow> list_all stable_simple c \<Longrightarrow> matches_compound e' c = matches_compound e c"
  by (induction c) (auto simp: alike_def matches_compound_def matches_simple_mutate)

lemma ancestors_less: "a \<in> set (ancestors d i) \<Longrightarrow> a < i"
proof (induction d i rule: ancestors.induct)
  case (1 d i)
  show ?case
  proof (cases "i < length d")
    case True
    show ?thesis
    proof (cases "parent (d ! i)")
      case None
      with True 1(2) show ?thesis by (simp add: ancestors.simps [of d i])
    next
      case (Some p)
      show ?thesis
      proof (cases "p < i")
        case pi: True
        from 1(2) True Some pi have "a = p \<or> a \<in> set (ancestors d p)"
          by (simp add: ancestors.simps [of d i])
        then show ?thesis
        proof
          assume "a = p" with pi show ?thesis by simp
        next
          assume "a \<in> set (ancestors d p)"
          then have "a < p" using 1(1) True Some pi by simp
          with pi show ?thesis by simp
        qed
      next
        case False
        with True Some 1(2) show ?thesis by (simp add: ancestors.simps [of d i])
      qed
    qed
  next
    case False
    with 1(2) show ?thesis by (simp add: ancestors.simps [of d i])
  qed
qed

lemma ancestors_alike: "docs_alike d d' \<Longrightarrow> ancestors d' i = ancestors d i"
proof (induction d i rule: ancestors.induct)
  case (1 d i)
  then have len: "length d' = length d" by (simp add: docs_alike_def)
  show ?case
  proof (cases "i < length d")
    case True
    with 1(2) have par: "parent (d' ! i) = parent (d ! i)"
      by (simp add: docs_alike_def alike_parent)
    show ?thesis
    proof (cases "parent (d ! i)")
      case None
      with True par len show ?thesis
        by (simp add: ancestors.simps [of d i] ancestors.simps [of d' i])
    next
      case (Some p)
      show ?thesis
      proof (cases "p < i")
        case pi: True
        then have "ancestors d' p = ancestors d p"
          using 1 True Some by simp
        with True par len Some pi show ?thesis
          by (simp add: ancestors.simps [of d i] ancestors.simps [of d' i])
      next
        case False
        with True par len Some show ?thesis
          by (simp add: ancestors.simps [of d i] ancestors.simps [of d' i])
      qed
    qed
  next
    case False
    with len show ?thesis
      by (simp add: ancestors.simps [of d i] ancestors.simps [of d' i])
  qed
qed

lemma matches_ancestors_alike:
  "docs_alike d d' \<Longrightarrow> list_all (list_all stable_simple) cs \<Longrightarrow> list_all (\<lambda>a. a < length d) as \<Longrightarrow>
   matches_ancestors d' cs as = matches_ancestors d cs as"
proof (induction d cs as rule: matches_ancestors.induct)
  case (1 d as)
  then show ?case by simp
next
  case (2 d c cs)
  then show ?case by simp
next
  case (3 d c cs a as)
  then have "matches_compound (d' ! a) c = matches_compound (d ! a) c"
    by (simp add: docs_alike_def alike_matches_compound)
  with 3 show ?case by simp
qed

lemma matches_alike:
  assumes "docs_alike d d'" "stable_selector sels" "i < length d"
  shows "matches d' sels i = matches d sels i"
proof -
  have anc: "list_all (\<lambda>a. a < length d) (ancestors d i)"
    using assms(3) by (auto simp: list_all_iff dest: ancestors_less)
  have "matches_complex d' i sel = matches_complex d i sel"
    if "list_all (list_all stable_simple) sel" for sel
  proof (cases "rev sel")
    case Nil
    then show ?thesis by (simp add: matches_complex_def)
  next
    case (Cons c cs)
    then have "set sel = insert c (set cs)"
      by (metis list.simps(15) set_rev)
    with that have c: "list_all stable_simple c" and cs: "list_all (list_all stable_simple) cs"
      by (simp_all add: list_all_iff)
    from assms(1,3) c have "matches_compound (d' ! i) c = matches_compound (d ! i) c"
      by (simp add: docs_alike_def alike_matches_compound)
    moreover have "matches_ancestors d' cs (ancestors d i) = matches_ancestors d cs (ancestors d i)"
      using assms(1) cs anc by (rule matches_ancestors_alike)
    ultimately show ?thesis
      using Cons assms(1) by (simp add: matches_complex_def ancestors_alike)
  qed
  with assms(2) show ?thesis
    by (auto simp: matches_def stable_selector_def list_ex_iff list_all_iff)
qed

lemma stable_searchLinks: "stable_selector searchLinks_selector"
  by (simp add: stable_selector_def searchLinks_selector_def marker_def)

lemma stable_imageLinks: "stable_selector imageLinks_selector"
  by (simp add: stable_selector_def imageLinks_selector_def)

lemma distinct_querySelectorAll: "distinct (querySelectorAll d sels)"
  by (simp add: querySelectorAll_def)

lemma querySelectorAll_less: "i \<in> set (querySelectorAll d sels) \<Longrightarrow> i < length d"
  by (simp add: querySelectorAll_def)

section \<open>The two loops\<close>

lemma search_step_eq:
  "search_step resolve l d =
     (if search_eligible resolve (d ! l) then d[l := mutate (d ! l)] else d)"
  by (simp add: search_step_def)

lemma image_step_eq:
  "image_step l d = (if image_eligible (d ! l) then d[l := mutate (d ! l)] else d)"
  by (simp add: image_step_def)

lemma length_fold_step:
  assumes "\<And>l d. step l d = (if eligible (d ! l) then d[l := mutate (d ! l)] else d)"
  shows "length (fold step ls d) = length d"
proof (induction ls arbitrary: d)
  case Nil
  then show ?case by simp
next
  case (Cons l ls)
  have "length (step l d) = length d" unfolding assms [of l d] by simp
  with Cons show ?case by simp
qed

lemma fold_step_nth:
  assumes step: "\<And>l d. step l d = (if eligible (d ! l) then d[l := mutate (d ! l)] else d)"
    and "distinct ls" "\<forall>l\<in>set ls. l < length d" "i < length d"
  shows "fold step ls d ! i = (if i \<in> set ls \<and> eligible (d ! i) then mutate (d ! i) else d ! i)"
  using assms(2-)
proof (induction ls arbitrary: d)
  case Nil
  then show ?case by simp
next
  case (Cons l ls)
  define d' where "d' = step l d"
  have d': "d' = (if eligible (d ! l) then d[l := mutate (d ! l)] else d)"
    unfolding d'_def by (rule step)
  have len: "length d' = length d" by (simp add: d')
  have unfold: "fold step (l # ls) d = fold step ls d'"
    by (simp add: d'_def)
  have IH: "fold step ls d' ! i = (if i \<in> set ls \<and> eligible (d' ! i) then mutate (d' ! i) else d' ! i)"
    using Cons.prems by (intro Cons.IH) (simp_all add: len)
  show ?case
  proof (cases "i = l")
    case True
    with Cons.prems have "i \<notin> set ls" by simp
    with IH have "fold step ls d' ! i = d' ! i" by simp
    with True Cons.prems show ?thesis unfolding unfold by (simp add: d')
  next
    case False
    then have "d' ! i = d ! i" by (simp add: d')
    with IH False show ?thesis unfolding unfold by simp
  qed
qed

lemma fold_step_trace:
  assumes step: "\<And>l d. step l d = (if eligible (d ! l) then d[l := mutate (d ! l)] else d)"
  shows "fold step ls d = fold (\<lambda>l d. d[l := mutate (d ! l)]) (mutated_links eligible ls d) d"
proof (induction ls arbitrary: d)
  case Nil
  then show ?case by simp
next
  case (Cons l ls)
  have "fold step (l # ls) d = fold step ls (step l d)" by simp
  also have "\<dots> = fold (\<lambda>l d. d[l := mutate (d ! l)]) (mutated_links eligible ls (step l d)) (step l d)"
    by (rule Cons.IH)
  also have "\<dots> = fold (\<lambda>l d. d[l := mutate (d ! l)]) (mutated_links eligible (l # ls) d) d"
    unfolding step [of l d] by simp
  finally show ?case .
qed

lemma mutated_links_filter:
  "distinct ls \<Longrightarrow> mutated_links eligible ls d = filter (\<lambda>l. eligible (d ! l)) ls"
proof (induction ls arbitrary: d)
  case Nil
  then show ?case by simp
next
  case (Cons l ls)
  have "filter (\<lambda>k. eligible (d[l := mutate (d ! l)] ! k)) ls = filter (\<lambda>k. eligible (d ! k)) ls"
  proof (rule filter_cong)
    fix k assume "k \<in> set ls"
    with Cons.prems have "k \<noteq> l" by auto
    then show "eligible (d[l := mutate (d ! l)] ! k) = eligible (d ! k)" by simp
  qed simp
  with Cons show ?case by simp
qed

lemma set_querySelectorAll:
  "set (querySelectorAll d sels) = {i. i < length d \<and> matches d sels i}"
  by (auto simp: querySelectorAll_def)

lemma length_search_pass: "length (search_pass resolve d) = length d"
  unfolding search_pass_def by (rule length_fold_step) (rule search_step_eq)

lemma length_image_pass: "length (image_pass d) = length d"
  unfolding image_pass_def by (rule length_fold_step) (rule image_step_eq)

lemma search_pass_nth:
  assumes "i < length d"
  shows "search_pass resolve d ! i =
     (if matches d searchLinks_selector i \<and> search_eligible resolve (d ! i)
      then mutate (d ! i) else d ! i)"
proof -
  have "search_pass resolve d ! i =
     (if i \<in> set (querySelectorAll d searchLinks_selector) \<and> search_eligible resolve (d ! i)
      then mutate (d ! i) else d ! i)"
    unfolding search_pass_def
    by (rule fold_step_nth [where eligible = "search_eligible resolve"])
      (simp_all add: search_step_eq distinct_querySelectorAll querySelectorAll_less assms)
  with assms show ?thesis by (simp add: set_querySelectorAll)
qed

lemma image_pass_nth:
  assumes "i < length d"
  shows "image_pass d ! i =
     (if matches d imageLinks_selector i \<and> image_eligible (d ! i)
      then mutate (d ! i) else d ! i)"
proof -
  have "image_pass d ! i =
     (if i \<in> set (querySelectorAll d imageLinks_selector) \<and> image_eligible (d ! i)
      then mutate (d ! i) else d ! i)"
    unfolding image_pass_def
    by (rule fold_step_nth [where eligible = image_eligible])
      (simp_all add: image_step_eq distinct_querySelectorAll querySelectorAll_less assms)
  with assms show ?thesis by (simp add: set_querySelectorAll)
qed

lemma set_search_mutated:
  "set (search_mutated resolve d) =
     {i. i < length d \<and> matches d searchLinks_selector i \<and> search_eligible resolve (d ! i)}"
  by (auto simp: search_mutated_def mutated_links_filter distinct_querySelectorAll
        set_querySelectorAll)

lemma set_image_mutated:
  "set (image_mutated d) =
     {i. i < length d \<and> matches d imageLinks_selector i \<and> image_eligible (d ! i)}"
  by (auto simp: image_mutated_def mutated_links_filter distinct_querySelectorAll
        set_querySelectorAll)

lemma distinct_search_mutated: "distinct (search_mutated resolve d)"
  by (simp add: search_mutated_def mutated_links_filter distinct_querySelectorAll)

lemma distinct_image_mutated: "distinct (image_mutated d)"
  by (simp add: image_mutated_def mutated_links_filter distinct_querySelectorAll)

lemma docs_alike_search_pass: "docs_alike d (search_pass resolve d)"
  by (simp add: docs_alike_def alike_def length_search_pass search_pass_nth)

lemma length_modifySearchResults: "length (modifySearchResults resolve d) = length d"
  by (simp add: modifySearchResults_def length_image_pass length_search_pass)

lemma matches_image_search_pass:
  "i < length d \<Longrightarrow>
   matches (search_pass resolve d) imageLinks_selector i = matches d imageLinks_selector i"
  using docs_alike_search_pass stable_imageLinks by (rule matches_alike)

lemma modifySearchResults_nth:
  assumes "i < length d"
  shows "modifySearchResults resolve d ! i =
     (if rewritten resolve d i then mutate (d ! i) else d ! i)"
proof -
  let ?d1 = "search_pass resolve d"
  have *: "modifySearchResults resolve d ! i =
     (if matches d imageLinks_selector i \<and> image_eligible (?d1 ! i)
      then mutate (?d1 ! i) else ?d1 ! i)"
    using assms
    by (simp add: modifySearchResults_def image_pass_nth length_search_pass
          matches_image_search_pass)
  show ?thesis
  proof (cases "matches d searchLinks_selector i \<and> search_eligible resolve (d ! i)")
    case True
    with assms have "?d1 ! i = mutate (d ! i)" by (simp add: search_pass_nth)
    with * True show ?thesis
      by (simp add: not_image_eligible_mutate rewritten_def)
  next
    case False
    have "?d1 ! i = d ! i"
      unfolding search_pass_nth [OF assms] by (simp only: False if_False)
    with * False show ?thesis
      by (auto simp: rewritten_def)
  qed
qed

lemma set_modify_mutated:
  "set (modify_mutated resolve d) = {i. i < length d \<and> rewritten resolve d i}"
proof (rule set_eqI)
  fix i
  let ?d1 = "search_pass resolve d"
  show "i \<in> set (modify_mutated resolve d) \<longleftrightarrow> i \<in> {i. i < length d \<and> rewritten resolve d i}"
  proof (cases "i < length d")
    case False
    then show ?thesis
      by (simp add: modify_mutated_def set_search_mutated set_image_mutated length_search_pass)
  next
    case len: True
    have img: "i \<in> set (image_mutated ?d1) \<longleftrightarrow>
        matches d imageLinks_selector i \<and> image_eligible (?d1 ! i)"
      using len by (simp add: set_image_mutated length_search_pass matches_image_search_pass)
    show ?thesis
    proof (cases "matches d searchLinks_selector i \<and> search_eligible resolve (d ! i)")
      case True
      with len show ?thesis
        by (simp add: modify_mutated_def set_search_mutated rewritten_def)
    next
      case False
      have "?d1 ! i = d ! i"
        unfolding search_pass_nth [OF len] by (simp only: False if_False)
      with False len img show ?thesis
        by (auto simp: modify_mutated_def set_search_mutated rewritten_def)
    qed
  qed
qed

lemma docs_alike_modify: "docs_alike d (modifySearchResults resolve d)"
  by (simp add: docs_alike_def alike_def length_modifySearchResults modifySearchResults_nth)

lemma rewritten_modify:
  assumes "i < length d"
  shows "\<not> rewritten resolve (modifySearchResults resolve d) i"
proof -
  let ?d2 = "modifySearchResults resolve d"
  have s: "matches ?d2 searchLinks_selector i = matches d searchLinks_selector i"
    using docs_alike_modify stable_searchLinks assms by (rule matches_alike)
  have m: "matches ?d2 imageLinks_selector i = matches d imageLinks_selector i"
    using docs_alike_modify stable_imageLinks assms by (rule matches_alike)
  show ?thesis
  proof (cases "rewritten resolve d i")
    case True
    with assms have "?d2 ! i = mutate (d ! i)" by (simp add: modifySearchResults_nth)
    then show ?thesis
      by (simp add: rewritten_def not_search_eligible_mutate not_image_eligible_mutate)
  next
    case False
    with assms have "?d2 ! i = d ! i" by (simp add: modifySearchResults_nth)
    with False s m show ?thesis by (simp add: rewritten_def)
  qed
qed

lemma modify_idem: "modifySearchResults resolve (modifySearchResults resolve d) = modifySearchResults resolve d"
  by (rule nth_equalityI)
    (simp_all add: length_modifySearchResults modifySearchResults_nth rewritten_modify)

lemma modify_mutated_second: "modify_mutated resolve (modifySearchResults resolve d) = []"
proof -
  have "set (modify_mutated resolve (modifySearchResults resolve d)) = {}"
    by (auto simp: set_modify_mutated length_modifySearchResults rewritten_modify)
  then show ?thesis by simp
qed

section \<open>The claims about the link rewriter\<close>

text \<open>
  C1. Every link that either loop of \<^verbatim>\<open>modifySearchResults\<close> selects and judges eligible has,
  when the call returns, \<^verbatim>\<open>target\<close> \<^verbatim>\<open>_blank\<close>, \<^verbatim>\<open>rel\<close> \<^verbatim>\<open>noopener noreferrer\<close>, and the class
  \<^verbatim>\<open>modified-by-extension\<close>.
\<close>

theorem eligible_links_rewritten:
  assumes "i \<in> set (search_mutated resolve d)
           \<or> i \<in> set (image_mutated (search_pass resolve d))"
  shows "getAttribute (attrs (modifySearchResults resolve d ! i)) ''target'' = Some ''_blank''
         \<and> getAttribute (attrs (modifySearchResults resolve d ! i)) ''rel''
             = Some ''noopener noreferrer''
         \<and> classList_contains (modifySearchResults resolve d ! i) marker"
proof -
  from assms have "i \<in> set (modify_mutated resolve d)"
    by (simp add: modify_mutated_def)
  then have "i < length d" and "rewritten resolve d i"
    by (simp_all add: set_modify_mutated)
  then have "modifySearchResults resolve d ! i = mutate (d ! i)"
    by (simp add: modifySearchResults_nth)
  then show ?thesis
    by (simp add: getAttribute_mutate marked_mutate)
qed

theorem eligible_links_rewritten_witness:
  "2 \<in> set (search_mutated example_resolve example_page)
   \<and> 5 \<in> set (image_mutated (search_pass example_resolve example_page))
   \<and> getAttribute (attrs (modifySearchResults example_resolve example_page ! 2)) ''target''
       = Some ''_blank''
   \<and> getAttribute (attrs (modifySearchResults example_resolve example_page ! 2)) ''rel''
       = Some ''noopener noreferrer''
   \<and> classList_contains (modifySearchResults example_resolve example_page ! 2) marker
   \<and> getAttribute (attrs (modifySearchResults example_resolve example_page ! 5)) ''target''
       = Some ''_blank''
   \<and> getAttribute (attrs (modifySearchResults example_resolve example_page ! 5)) ''rel''
       = Some ''noopener noreferrer''
   \<and> classList_contains (modifySearchResults example_resolve example_page ! 5) marker"
proof -
  have s: "2 \<in> set (search_mutated example_resolve example_page)"
    by code_simp
  have i: "5 \<in> set (image_mutated (search_pass example_resolve example_page))"
    by code_simp
  from s have "2 \<in> set (search_mutated example_resolve example_page)
      \<or> 2 \<in> set (image_mutated (search_pass example_resolve example_page))" ..
  note a = eligible_links_rewritten [OF this]
  from i have "5 \<in> set (search_mutated example_resolve example_page)
      \<or> 5 \<in> set (image_mutated (search_pass example_resolve example_page))" ..
  note b = eligible_links_rewritten [OF this]
  from s i a b show ?thesis by blast
qed

text \<open>
  C2. In the first loop, a link the selector matched is mutated exactly when its \<^verbatim>\<open>href\<close> is
  not empty, does not include \<^verbatim>\<open>google.com/search\<close>, does not include \<^verbatim>\<open>#\<close>, and the link
  does not carry the marker: exactly then the loop leaves the element different from what
  it was, with \<^verbatim>\<open>target\<close> \<^verbatim>\<open>_blank\<close>, \<^verbatim>\<open>rel\<close> \<^verbatim>\<open>noopener noreferrer\<close> and the marker. So a link to the
  search endpoint, or one with a fragment, is left as it was by this loop.
\<close>

theorem search_pass_mutates_iff_eligible:
  assumes "i \<in> set (querySelectorAll d searchLinks_selector)"
  shows "(search_pass resolve d ! i \<noteq> d ! i) =
           (href resolve (d ! i) \<noteq> []
            \<and> \<not> str_includes (href resolve (d ! i)) ''google.com/search''
            \<and> \<not> str_includes (href resolve (d ! i)) ''#''
            \<and> \<not> classList_contains (d ! i) marker)
         \<and> (i \<in> set (search_mutated resolve d)) =
           (href resolve (d ! i) \<noteq> []
            \<and> \<not> str_includes (href resolve (d ! i)) ''google.com/search''
            \<and> \<not> str_includes (href resolve (d ! i)) ''#''
            \<and> \<not> classList_contains (d ! i) marker)
         \<and> search_pass resolve d ! i =
             (if i \<in> set (search_mutated resolve d) then mutate (d ! i) else d ! i)
         \<and> (href resolve (d ! i) \<noteq> []
            \<and> \<not> str_includes (href resolve (d ! i)) ''google.com/search''
            \<and> \<not> str_includes (href resolve (d ! i)) ''#''
            \<and> \<not> classList_contains (d ! i) marker
            \<longrightarrow> getAttribute (attrs (search_pass resolve d ! i)) ''target'' = Some ''_blank''
                \<and> getAttribute (attrs (search_pass resolve d ! i)) ''rel''
                    = Some ''noopener noreferrer''
                \<and> classList_contains (search_pass resolve d ! i) marker)
         \<and> (str_includes (href resolve (d ! i)) ''google.com/search''
              \<or> str_includes (href resolve (d ! i)) ''#''
             \<longrightarrow> i \<notin> set (search_mutated resolve d) \<and> search_pass resolve d ! i = d ! i)"
proof -
  let ?el = "href resolve (d ! i) \<noteq> []
            \<and> \<not> str_includes (href resolve (d ! i)) ''google.com/search''
            \<and> \<not> str_includes (href resolve (d ! i)) ''#''
            \<and> \<not> classList_contains (d ! i) marker"
  from assms have len: "i < length d" and m: "matches d searchLinks_selector i"
    by (simp_all add: set_querySelectorAll)
  from len m have 1: "(i \<in> set (search_mutated resolve d)) = ?el"
    by (simp add: set_search_mutated search_eligible_def)
  from len m have 2: "search_pass resolve d ! i =
           (if i \<in> set (search_mutated resolve d) then mutate (d ! i) else d ! i)"
    by (simp add: search_pass_nth set_search_mutated)
  have 0: "(search_pass resolve d ! i \<noteq> d ! i) = ?el"
  proof (cases "i \<in> set (search_mutated resolve d)")
    case True
    with 1 have "\<not> classList_contains (d ! i) marker" by blast
    then have "mutate (d ! i) \<noteq> d ! i" by (rule mutate_changes)
    with True 1 2 show ?thesis by simp
  next
    case False
    with 1 2 show ?thesis by simp
  qed
  have 3: "getAttribute (attrs (search_pass resolve d ! i)) ''target'' = Some ''_blank''
                \<and> getAttribute (attrs (search_pass resolve d ! i)) ''rel''
                    = Some ''noopener noreferrer''
                \<and> classList_contains (search_pass resolve d ! i) marker"
    if ?el
  proof -
    from that 1 2 have "search_pass resolve d ! i = mutate (d ! i)" by simp
    then show ?thesis by (simp add: getAttribute_mutate marked_mutate)
  qed
  have 4: "i \<notin> set (search_mutated resolve d) \<and> search_pass resolve d ! i = d ! i"
    if "str_includes (href resolve (d ! i)) ''google.com/search''
         \<or> str_includes (href resolve (d ! i)) ''#''"
  proof -
    from that 1 have "i \<notin> set (search_mutated resolve d)" by blast
    with 2 show ?thesis by simp
  qed
  from 0 1 2 3 4 show ?thesis by blast
qed

theorem search_pass_mutates_iff_eligible_witness:
  "2 \<in> set (querySelectorAll example_page searchLinks_selector)
   \<and> 2 \<in> set (search_mutated example_resolve example_page)
   \<and> search_pass example_resolve example_page ! 2 \<noteq> example_page ! 2
   \<and> getAttribute (attrs (example_page ! 2)) ''target'' = None
   \<and> getAttribute (attrs (search_pass example_resolve example_page ! 2)) ''target''
       = Some ''_blank''
   \<and> getAttribute (attrs (search_pass example_resolve example_page ! 2)) ''rel''
       = Some ''noopener noreferrer''
   \<and> classList_contains (search_pass example_resolve example_page ! 2) marker
   \<and> 3 \<in> set (querySelectorAll example_page searchLinks_selector)
   \<and> str_includes (href example_resolve (example_page ! 3)) ''google.com/search''
   \<and> search_pass example_resolve example_page ! 3 = example_page ! 3
   \<and> 4 \<in> set (querySelectorAll example_page searchLinks_selector)
   \<and> str_includes (href example_resolve (example_page ! 4)) ''#''
   \<and> search_pass example_resolve example_page ! 4 = example_page ! 4"
proof -
  have s2: "2 \<in> set (querySelectorAll example_page searchLinks_selector)" by code_simp
  have s3: "3 \<in> set (querySelectorAll example_page searchLinks_selector)" by code_simp
  have s4: "4 \<in> set (querySelectorAll example_page searchLinks_selector)" by code_simp
  have e2: "href example_resolve (example_page ! 2) \<noteq> []
            \<and> \<not> str_includes (href example_resolve (example_page ! 2)) ''google.com/search''
            \<and> \<not> str_includes (href example_resolve (example_page ! 2)) ''#''
            \<and> \<not> classList_contains (example_page ! 2) marker"
    by code_simp
  have t2: "getAttribute (attrs (example_page ! 2)) ''target'' = None" by code_simp
  have e3: "str_includes (href example_resolve (example_page ! 3)) ''google.com/search''"
    by code_simp
  have e4: "str_includes (href example_resolve (example_page ! 4)) ''#''"
    by code_simp
  from search_pass_mutates_iff_eligible [OF s2, of example_resolve]
    search_pass_mutates_iff_eligible [OF s3, of example_resolve]
    search_pass_mutates_iff_eligible [OF s4, of example_resolve]
    s2 s3 s4 e2 t2 e3 e4
  show ?thesis by blast
qed

text \<open>
  C3. \<^verbatim>\<open>modifySearchResults\<close> is idempotent: a second invocation on the document the first
  one left returns that document, and mutates no link in either loop; every link the
  first invocation mutated carries the marker.
\<close>

theorem modifySearchResults_idempotent:
  "modifySearchResults resolve (modifySearchResults resolve d) = modifySearchResults resolve d
   \<and> search_mutated resolve (modifySearchResults resolve d) = []
   \<and> image_mutated (search_pass resolve (modifySearchResults resolve d)) = []
   \<and> list_all (\<lambda>i. classList_contains (modifySearchResults resolve d ! i) marker)
        (modify_mutated resolve d)"
proof -
  have "modify_mutated resolve (modifySearchResults resolve d) = []"
    by (rule modify_mutated_second)
  then have "search_mutated resolve (modifySearchResults resolve d) = []"
    and "image_mutated (search_pass resolve (modifySearchResults resolve d)) = []"
    by (simp_all add: modify_mutated_def)
  moreover have "classList_contains (modifySearchResults resolve d ! i) marker"
    if "i \<in> set (modify_mutated resolve d)" for i
    using that by (simp add: set_modify_mutated modifySearchResults_nth marked_mutate)
  ultimately show ?thesis
    by (simp add: modify_idem list_all_iff)
qed

theorem modifySearchResults_idempotent_witness:
  "modify_mutated example_resolve example_page = [2, 8, 5, 6]
   \<and> modifySearchResults example_resolve (modifySearchResults example_resolve example_page)
       = modifySearchResults example_resolve example_page
   \<and> search_mutated example_resolve (modifySearchResults example_resolve example_page) = []
   \<and> image_mutated (search_pass example_resolve
        (modifySearchResults example_resolve example_page)) = []
   \<and> classList_contains (modifySearchResults example_resolve example_page ! 8) marker"
proof -
  have m: "modify_mutated example_resolve example_page = [2, 8, 5, 6]" by code_simp
  from modifySearchResults_idempotent [of example_resolve example_page] m
  show ?thesis by simp
qed

section \<open>The marker invariant\<close>

lemma marked_consistent_nth:
  "marked_consistent d =
     (\<forall>i<length d. classList_contains (d ! i) marker \<longrightarrow>
        getAttribute (attrs (d ! i)) ''target'' = Some ''_blank''
        \<and> getAttribute (attrs (d ! i)) ''rel'' = Some ''noopener noreferrer'')"
  by (simp add: marked_consistent_def list_all_length)

lemma marked_consistent_modify:
  assumes "marked_consistent d"
  shows "marked_consistent (modifySearchResults resolve d)"
  unfolding marked_consistent_nth
proof (intro allI impI)
  fix i
  assume "i < length (modifySearchResults resolve d)"
  then have len: "i < length d" by (simp add: length_modifySearchResults)
  assume c: "classList_contains (modifySearchResults resolve d ! i) marker"
  show "getAttribute (attrs (modifySearchResults resolve d ! i)) ''target'' = Some ''_blank''
        \<and> getAttribute (attrs (modifySearchResults resolve d ! i)) ''rel''
            = Some ''noopener noreferrer''"
  proof (cases "rewritten resolve d i")
    case True
    with len show ?thesis by (simp add: modifySearchResults_nth getAttribute_mutate)
  next
    case False
    with len have "modifySearchResults resolve d ! i = d ! i"
      by (simp add: modifySearchResults_nth)
    with c len assms show ?thesis by (simp add: marked_consistent_nth)
  qed
qed

lemma marked_consistent_invocations:
  "marked_consistent d \<Longrightarrow> marked_consistent (invocations resolve n d)"
  by (induction n arbitrary: d) (simp_all add: marked_consistent_modify)

lemma distinct_modify_mutated: "distinct (modify_mutated resolve d)"
proof -
  have "i \<notin> set (image_mutated (search_pass resolve d))"
    if "i \<in> set (search_mutated resolve d)" for i
  proof -
    from that have "i < length d" and "search_pass resolve d ! i = mutate (d ! i)"
      by (simp_all add: set_search_mutated search_pass_nth)
    then show ?thesis
      by (simp add: set_image_mutated not_image_eligible_mutate)
  qed
  then show ?thesis
    by (auto simp: modify_mutated_def distinct_search_mutated distinct_image_mutated)
qed

lemma invocations_mutated_again:
  "invocations_mutated resolve n (modifySearchResults resolve d) = []"
proof (induction n)
  case 0
  then show ?case by simp
next
  case (Suc n)
  then show ?case by (simp add: modify_mutated_second modify_idem)
qed

lemma distinct_invocations_mutated: "distinct (invocations_mutated resolve n d)"
  by (cases n) (simp_all add: invocations_mutated_again distinct_modify_mutated)

text \<open>
  C4. If every marked element of a document has \<^verbatim>\<open>target\<close> and \<^verbatim>\<open>rel\<close> set as the script sets
  them, the same holds after any number of invocations of \<^verbatim>\<open>modifySearchResults\<close>, and over
  all these invocations no element is mutated twice.
\<close>

theorem marker_invariant_preserved:
  assumes "marked_consistent d"
  shows "marked_consistent (modifySearchResults resolve d)
         \<and> marked_consistent (invocations resolve n d)
         \<and> distinct (invocations_mutated resolve n d)"
  using assms
  by (simp add: marked_consistent_modify marked_consistent_invocations
        distinct_invocations_mutated)

theorem marker_invariant_preserved_witness:
  "marked_consistent fresh_page
   \<and> invocations_mutated example_resolve 3 fresh_page = [2, 8, 5, 6]
   \<and> marked_consistent (modifySearchResults example_resolve fresh_page)
   \<and> marked_consistent (invocations example_resolve 3 fresh_page)
   \<and> distinct (invocations_mutated example_resolve 3 fresh_page)"
proof -
  have h: "marked_consistent fresh_page" by code_simp
  have t: "invocations_mutated example_resolve 3 fresh_page = [2, 8, 5, 6]" by code_simp
  from marker_invariant_preserved [OF h, of example_resolve 3] h t
  show ?thesis by simp
qed

text \<open>
  C5. A link that carries the marker is left exactly as it is by an invocation, whatever
  its \<^verbatim>\<open>target\<close> and \<^verbatim>\<open>rel\<close> are: neither loop mutates it.
\<close>

theorem marked_link_untouched:
  assumes "i < length d" and "classList_contains (d ! i) marker"
  shows "modifySearchResults resolve d ! i = d ! i
         \<and> i \<notin> set (search_mutated resolve d)
         \<and> i \<notin> set (image_mutated (search_pass resolve d))"
proof -
  from assms(2) have "\<not> rewritten resolve d i"
    by (simp add: rewritten_def search_eligible_def image_eligible_def)
  with assms(1) have "modifySearchResults resolve d ! i = d ! i"
    and "i \<notin> set (modify_mutated resolve d)"
    by (simp_all add: modifySearchResults_nth set_modify_mutated)
  then show ?thesis by (simp add: modify_mutated_def)
qed

theorem marked_link_untouched_witness:
  "9 < length example_page
   \<and> classList_contains (example_page ! 9) marker
   \<and> 9 \<in> set (querySelectorAll example_page searchLinks_selector)
   \<and> 9 \<in> set (querySelectorAll example_page imageLinks_selector)
   \<and> getAttribute (attrs (example_page ! 9)) ''target'' = Some ''_self''
   \<and> getAttribute (attrs (example_page ! 9)) ''rel'' = None
   \<and> modifySearchResults example_resolve example_page ! 9 = example_page ! 9"
proof -
  have l: "9 < length example_page" by code_simp
  have c: "classList_contains (example_page ! 9) marker" by code_simp
  have s: "9 \<in> set (querySelectorAll example_page searchLinks_selector)" by code_simp
  have i: "9 \<in> set (querySelectorAll example_page imageLinks_selector)" by code_simp
  have t: "getAttribute (attrs (example_page ! 9)) ''target'' = Some ''_self''" by code_simp
  have r: "getAttribute (attrs (example_page ! 9)) ''rel'' = None" by code_simp
  from marked_link_untouched [OF l c, of example_resolve] l c s i t r
  show ?thesis by blast
qed

section \<open>The image loop and the overlap of the two selectors\<close>

lemma matches_imageLinks:
  "matches d imageLinks_selector i =
     (tag (d ! i) = ''a''
      \<and> (case getAttribute (attrs (d ! i)) ''href'' of
            None \<Rightarrow> False
          | Some v \<Rightarrow> str_includes v ''/imgres''))"
  by (simp add: matches_def imageLinks_selector_def matches_complex_def matches_compound_def
        split: option.splits)

text \<open>
  C6. In the second loop, an anchor whose \<^verbatim>\<open>href\<close> attribute contains \<^verbatim>\<open>/imgres\<close> is mutated
  exactly when it does not carry the marker; the loop has no test on the URL. Exactly
  then the loop leaves the element different from what it was, with \<^verbatim>\<open>target\<close> \<^verbatim>\<open>_blank\<close>,
  \<^verbatim>\<open>rel\<close> \<^verbatim>\<open>noopener noreferrer\<close> and the marker. Over a whole invocation, such an anchor is
  rewritten exactly when it did not carry the marker at the start.
\<close>

theorem image_pass_mutates_iff_unmarked:
  assumes "i < length d" and "tag (d ! i) = ''a''"
    and "getAttribute (attrs (d ! i)) ''href'' = Some v" and "str_includes v ''/imgres''"
  shows "(image_pass d ! i \<noteq> d ! i) = (\<not> classList_contains (d ! i) marker)
         \<and> (i \<in> set (image_mutated d)) = (\<not> classList_contains (d ! i) marker)
         \<and> image_pass d ! i = (if classList_contains (d ! i) marker then d ! i else mutate (d ! i))
         \<and> (i \<in> set (image_mutated (search_pass resolve d)))
             = (\<not> classList_contains (search_pass resolve d ! i) marker)
         \<and> modifySearchResults resolve d ! i
             = (if classList_contains (d ! i) marker then d ! i else mutate (d ! i))
         \<and> (modifySearchResults resolve d ! i \<noteq> d ! i) = (\<not> classList_contains (d ! i) marker)
         \<and> (\<not> classList_contains (d ! i) marker \<longrightarrow>
              getAttribute (attrs (image_pass d ! i)) ''target'' = Some ''_blank''
              \<and> getAttribute (attrs (image_pass d ! i)) ''rel'' = Some ''noopener noreferrer''
              \<and> classList_contains (image_pass d ! i) marker
              \<and> getAttribute (attrs (modifySearchResults resolve d ! i)) ''target''
                  = Some ''_blank''
              \<and> getAttribute (attrs (modifySearchResults resolve d ! i)) ''rel''
                  = Some ''noopener noreferrer''
              \<and> classList_contains (modifySearchResults resolve d ! i) marker)"
proof -
  from assms have m: "matches d imageLinks_selector i"
    by (simp add: matches_imageLinks)
  with assms(1) have m1: "matches (search_pass resolve d) imageLinks_selector i"
    by (simp add: matches_image_search_pass)
  from m assms(1) have 1: "(i \<in> set (image_mutated d)) = (\<not> classList_contains (d ! i) marker)"
    by (simp add: set_image_mutated image_eligible_def)
  from m assms(1)
  have 2: "image_pass d ! i = (if classList_contains (d ! i) marker then d ! i else mutate (d ! i))"
    by (simp add: image_pass_nth image_eligible_def)
  from m1 assms(1) have 3: "(i \<in> set (image_mutated (search_pass resolve d)))
             = (\<not> classList_contains (search_pass resolve d ! i) marker)"
    by (simp add: set_image_mutated image_eligible_def length_search_pass)
  have "rewritten resolve d i = (\<not> classList_contains (d ! i) marker)"
    using m by (auto simp: rewritten_def image_eligible_def search_eligible_def)
  with assms(1) have 4: "modifySearchResults resolve d ! i
             = (if classList_contains (d ! i) marker then d ! i else mutate (d ! i))"
    by (simp add: modifySearchResults_nth)
  have ch: "(mutate (d ! i) \<noteq> d ! i)" if "\<not> classList_contains (d ! i) marker"
    using that by (rule mutate_changes)
  from 2 ch have 0: "(image_pass d ! i \<noteq> d ! i) = (\<not> classList_contains (d ! i) marker)"
    by auto
  from 4 ch
  have 5: "(modifySearchResults resolve d ! i \<noteq> d ! i) = (\<not> classList_contains (d ! i) marker)"
    by auto
  have 6: "getAttribute (attrs (image_pass d ! i)) ''target'' = Some ''_blank''
              \<and> getAttribute (attrs (image_pass d ! i)) ''rel'' = Some ''noopener noreferrer''
              \<and> classList_contains (image_pass d ! i) marker
              \<and> getAttribute (attrs (modifySearchResults resolve d ! i)) ''target''
                  = Some ''_blank''
              \<and> getAttribute (attrs (modifySearchResults resolve d ! i)) ''rel''
                  = Some ''noopener noreferrer''
              \<and> classList_contains (modifySearchResults resolve d ! i) marker"
    if "\<not> classList_contains (d ! i) marker"
  proof -
    from that 2 4 have "image_pass d ! i = mutate (d ! i)"
      and "modifySearchResults resolve d ! i = mutate (d ! i)"
      by simp_all
    then show ?thesis by (simp add: getAttribute_mutate marked_mutate)
  qed
  from 0 1 2 3 4 5 6 show ?thesis by blast
qed

theorem image_pass_mutates_iff_unmarked_witness:
  "6 < length example_page \<and> tag (example_page ! 6) = ''a''
   \<and> getAttribute (attrs (example_page ! 6)) ''href''
       = Some ''https://www.google.com/search?q=/imgres#top''
   \<and> str_includes ''https://www.google.com/search?q=/imgres#top'' ''/imgres''
   \<and> str_includes (href example_resolve (example_page ! 6)) ''google.com/search''
   \<and> str_includes (href example_resolve (example_page ! 6)) ''#''
   \<and> \<not> classList_contains (example_page ! 6) marker
   \<and> getAttribute (attrs (example_page ! 6)) ''target'' = None
   \<and> 6 \<in> set (image_mutated (search_pass example_resolve example_page))
   \<and> modifySearchResults example_resolve example_page ! 6 = mutate (example_page ! 6)
   \<and> modifySearchResults example_resolve example_page ! 6 \<noteq> example_page ! 6
   \<and> getAttribute (attrs (modifySearchResults example_resolve example_page ! 6)) ''target''
       = Some ''_blank''
   \<and> getAttribute (attrs (modifySearchResults example_resolve example_page ! 6)) ''rel''
       = Some ''noopener noreferrer''
   \<and> classList_contains (modifySearchResults example_resolve example_page ! 6) marker"
proof -
  have l: "6 < length example_page" by code_simp
  have t: "tag (example_page ! 6) = ''a''" by code_simp
  have h: "getAttribute (attrs (example_page ! 6)) ''href''
       = Some ''https://www.google.com/search?q=/imgres#top''" by code_simp
  have s: "str_includes ''https://www.google.com/search?q=/imgres#top'' ''/imgres''"
    by code_simp
  have g: "str_includes (href example_resolve (example_page ! 6)) ''google.com/search''"
    by code_simp
  have f: "str_includes (href example_resolve (example_page ! 6)) ''#''" by code_simp
  have c: "\<not> classList_contains (example_page ! 6) marker" by code_simp
  have n: "getAttribute (attrs (example_page ! 6)) ''target'' = None" by code_simp
  have u: "\<not> classList_contains (search_pass example_resolve example_page ! 6) marker"
    by code_simp
  from image_pass_mutates_iff_unmarked [OF l t h s, of example_resolve] l t h s g f c n u
  show ?thesis by (simp add: mutate_changes getAttribute_mutate marked_mutate)
qed

text \<open>
  C7, as the claim states it, fails: an anchor with a \<^verbatim>\<open>jsname\<close> attribute whose \<^verbatim>\<open>href\<close>
  contains \<^verbatim>\<open>/imgres\<close> is matched by the selector of the first loop and by the selector of
  the second, and is examined by both loops of one invocation.
\<close>

theorem selectors_overlap:
  "0 \<in> set (querySelectorAll
       [\<lparr>tag = ''a'', attrs = [(''jsname'', ''z''), (''href'', ''/imgres?imgurl=cat.png'')],
         parent = None\<rparr>] searchLinks_selector)
   \<and> 0 \<in> set (querySelectorAll
       [\<lparr>tag = ''a'', attrs = [(''jsname'', ''z''), (''href'', ''/imgres?imgurl=cat.png'')],
         parent = None\<rparr>] imageLinks_selector)
   \<and> 0 \<in> set (querySelectorAll
       (search_pass example_resolve
          [\<lparr>tag = ''a'', attrs = [(''jsname'', ''z''), (''href'', ''/imgres?imgurl=cat.png'')],
            parent = None\<rparr>]) imageLinks_selector)"
  by code_simp

text \<open>
  C7, amended. An element the first loop examines is examined by the second loop too
  exactly when it is an anchor whose \<^verbatim>\<open>href\<close> attribute contains \<^verbatim>\<open>/imgres\<close>; no element is
  mutated by both loops of one invocation.
\<close>

theorem passes_overlap_but_mutate_once:
  "(i \<in> set (querySelectorAll d searchLinks_selector)
     \<and> i \<in> set (querySelectorAll (search_pass resolve d) imageLinks_selector))
   = (i \<in> set (querySelectorAll d searchLinks_selector)
      \<and> tag (d ! i) = ''a''
      \<and> (\<exists>v. getAttribute (attrs (d ! i)) ''href'' = Some v \<and> str_includes v ''/imgres''))
   \<and> set (search_mutated resolve d) \<inter> set (image_mutated (search_pass resolve d)) = {}"
proof -
  have "matches (search_pass resolve d) imageLinks_selector i
        = (tag (d ! i) = ''a''
           \<and> (\<exists>v. getAttribute (attrs (d ! i)) ''href'' = Some v \<and> str_includes v ''/imgres''))"
    if "i < length d"
  proof -
    from that have "matches (search_pass resolve d) imageLinks_selector i
        = matches d imageLinks_selector i"
      by (rule matches_image_search_pass)
    also have "\<dots> = (tag (d ! i) = ''a''
           \<and> (\<exists>v. getAttribute (attrs (d ! i)) ''href'' = Some v \<and> str_includes v ''/imgres''))"
      unfolding matches_imageLinks by (auto split: option.splits)
    finally show ?thesis .
  qed
  then have 1: "(i \<in> set (querySelectorAll d searchLinks_selector)
     \<and> i \<in> set (querySelectorAll (search_pass resolve d) imageLinks_selector))
   = (i \<in> set (querySelectorAll d searchLinks_selector)
      \<and> tag (d ! i) = ''a''
      \<and> (\<exists>v. getAttribute (attrs (d ! i)) ''href'' = Some v \<and> str_includes v ''/imgres''))"
    by (auto simp: set_querySelectorAll length_search_pass)
  have "distinct (modify_mutated resolve d)" by (rule distinct_modify_mutated)
  then have 2: "set (search_mutated resolve d) \<inter> set (image_mutated (search_pass resolve d)) = {}"
    by (simp add: modify_mutated_def)
  from 1 2 show ?thesis by blast
qed

section \<open>What an invocation leaves alone\<close>

lemma search_pass_trace:
  "search_pass resolve d
   = fold (\<lambda>l d. d[l := mutate (d ! l)]) (search_mutated resolve d) d"
  unfolding search_pass_def search_mutated_def
  by (rule fold_step_trace) (rule search_step_eq)

lemma image_pass_trace:
  "image_pass d = fold (\<lambda>l d. d[l := mutate (d ! l)]) (image_mutated d) d"
  unfolding image_pass_def image_mutated_def
  by (rule fold_step_trace) (rule image_step_eq)

lemma modifySearchResults_trace:
  "modifySearchResults resolve d
   = fold (\<lambda>l d. d[l := mutate (d ! l)]) (modify_mutated resolve d) d"
proof -
  let ?d1 = "search_pass resolve d"
  have "modifySearchResults resolve d
        = fold (\<lambda>l d. d[l := mutate (d ! l)]) (image_mutated ?d1) ?d1"
    unfolding modifySearchResults_def by (rule image_pass_trace)
  also have "\<dots> = fold (\<lambda>l d. d[l := mutate (d ! l)]) (image_mutated ?d1)
       (fold (\<lambda>l d. d[l := mutate (d ! l)]) (search_mutated resolve d) d)"
    using search_pass_trace [of resolve d] by simp
  finally show ?thesis by (simp add: modify_mutated_def)
qed

lemma rewritten_unmarked: "rewritten resolve d i \<Longrightarrow> \<not> classList_contains (d ! i) marker"
  by (auto simp: rewritten_def search_eligible_def image_eligible_def)

text \<open>
  C10. An invocation changes nothing but the \<^verbatim>\<open>target\<close>, \<^verbatim>\<open>rel\<close> and \<^verbatim>\<open>class\<close> attributes of the
  links it mutates: the result is the document with the three assignments made to each of
  these links; the document keeps its elements, every element its tag, its parent and
  its other attributes, and an element that is not mutated is unchanged. On a mutated link
  \<^verbatim>\<open>target\<close> is \<^verbatim>\<open>_blank\<close> and \<^verbatim>\<open>rel\<close> is \<^verbatim>\<open>noopener noreferrer\<close>, whatever they were before, and
  the class list is the old one with the marker appended.
\<close>

theorem modifySearchResults_frame:
  assumes "i < length d"
  shows "modifySearchResults resolve d
           = fold (\<lambda>link d. d[link := mutate (d ! link)]) (modify_mutated resolve d) d
         \<and> length (modifySearchResults resolve d) = length d
         \<and> tag (modifySearchResults resolve d ! i) = tag (d ! i)
         \<and> parent (modifySearchResults resolve d ! i) = parent (d ! i)
         \<and> (n \<noteq> ''target'' \<and> n \<noteq> ''rel'' \<and> n \<noteq> ''class'' \<longrightarrow>
              getAttribute (attrs (modifySearchResults resolve d ! i)) n
              = getAttribute (attrs (d ! i)) n)
         \<and> (i \<notin> set (modify_mutated resolve d) \<longrightarrow> modifySearchResults resolve d ! i = d ! i)
         \<and> (i \<in> set (modify_mutated resolve d) \<longrightarrow>
              getAttribute (attrs (modifySearchResults resolve d ! i)) ''target'' = Some ''_blank''
              \<and> getAttribute (attrs (modifySearchResults resolve d ! i)) ''rel''
                  = Some ''noopener noreferrer''
              \<and> classList (modifySearchResults resolve d ! i) = classList (d ! i) @ [marker])"
proof -
  have tr: "modifySearchResults resolve d
           = fold (\<lambda>link d. d[link := mutate (d ! link)]) (modify_mutated resolve d) d"
    by (rule modifySearchResults_trace)
  have "length (modifySearchResults resolve d) = length d
         \<and> tag (modifySearchResults resolve d ! i) = tag (d ! i)
         \<and> parent (modifySearchResults resolve d ! i) = parent (d ! i)
         \<and> (n \<noteq> ''target'' \<and> n \<noteq> ''rel'' \<and> n \<noteq> ''class'' \<longrightarrow>
              getAttribute (attrs (modifySearchResults resolve d ! i)) n
              = getAttribute (attrs (d ! i)) n)
         \<and> (i \<notin> set (modify_mutated resolve d) \<longrightarrow> modifySearchResults resolve d ! i = d ! i)
         \<and> (i \<in> set (modify_mutated resolve d) \<longrightarrow>
              getAttribute (attrs (modifySearchResults resolve d ! i)) ''target'' = Some ''_blank''
              \<and> getAttribute (attrs (modifySearchResults resolve d ! i)) ''rel''
                  = Some ''noopener noreferrer''
              \<and> classList (modifySearchResults resolve d ! i) = classList (d ! i) @ [marker])"
  proof (cases "rewritten resolve d i")
    case True
    with assms have m: "modifySearchResults resolve d ! i = mutate (d ! i)"
      and t: "i \<in> set (modify_mutated resolve d)"
      by (simp_all add: modifySearchResults_nth set_modify_mutated)
    from True have "marker \<notin> set (classList (d ! i))"
      using rewritten_unmarked [of resolve d i] by (simp add: classList_contains_def)
    then have "classList (mutate (d ! i)) = classList (d ! i) @ [marker]"
      by (simp add: classList_mutate ordered_set_append_def)
    with m t show ?thesis
      by (simp add: length_modifySearchResults tag_mutate parent_mutate getAttribute_mutate)
  next
    case False
    with assms have "modifySearchResults resolve d ! i = d ! i"
      and "i \<notin> set (modify_mutated resolve d)"
      by (simp_all add: modifySearchResults_nth set_modify_mutated)
    then show ?thesis
      by (simp add: length_modifySearchResults)
  qed
  with tr show ?thesis by (rule conjI)
qed

theorem modifySearchResults_frame_witness:
  "8 < length example_page \<and> 8 \<in> set (modify_mutated example_resolve example_page)
   \<and> 3 < length example_page \<and> 3 \<notin> set (modify_mutated example_resolve example_page)
   \<and> getAttribute (attrs (example_page ! 8)) ''rel'' = Some ''nofollow''
   \<and> getAttribute (attrs (example_page ! 8)) ''target'' = Some ''_self''
   \<and> classList (example_page ! 8) = [''fl'', ''big'']
   \<and> getAttribute (attrs (modifySearchResults example_resolve example_page ! 8)) ''rel''
       = Some ''noopener noreferrer''
   \<and> getAttribute (attrs (modifySearchResults example_resolve example_page ! 8)) ''target''
       = Some ''_blank''
   \<and> classList (modifySearchResults example_resolve example_page ! 8)
       = [''fl'', ''big'', ''modified-by-extension'']
   \<and> getAttribute (attrs (modifySearchResults example_resolve example_page ! 8)) ''data-ved''
       = getAttribute (attrs (example_page ! 8)) ''data-ved''
   \<and> getAttribute (attrs (modifySearchResults example_resolve example_page ! 8)) ''href''
       = getAttribute (attrs (example_page ! 8)) ''href''
   \<and> modifySearchResults example_resolve example_page ! 3 = example_page ! 3"
proof -
  have l8: "8 < length example_page" and l3: "3 < length example_page" by code_simp+
  have m8: "8 \<in> set (modify_mutated example_resolve example_page)" by code_simp
  have m3: "3 \<notin> set (modify_mutated example_resolve example_page)" by code_simp
  have r: "getAttribute (attrs (example_page ! 8)) ''rel'' = Some ''nofollow''" by code_simp
  have t: "getAttribute (attrs (example_page ! 8)) ''target'' = Some ''_self''" by code_simp
  have c: "classList (example_page ! 8) = [''fl'', ''big'']" by code_simp
  have n1: "''data-ved'' \<noteq> ''target'' \<and> ''data-ved'' \<noteq> ''rel'' \<and> ''data-ved'' \<noteq> ''class''"
    by simp
  have n2: "''href'' \<noteq> ''target'' \<and> ''href'' \<noteq> ''rel'' \<and> ''href'' \<noteq> ''class''"
    by simp
  from modifySearchResults_frame [OF l8, of example_resolve "''data-ved''", THEN conjunct2]
    modifySearchResults_frame [OF l8, of example_resolve "''href''", THEN conjunct2]
    modifySearchResults_frame [OF l3, of example_resolve "''href''", THEN conjunct2]
    l8 l3 m8 m3 r t c n1 n2
  show ?thesis by (simp add: marker_def)
qed

section \<open>Timers\<close>

lemma advance_simps:
  "pending (advance resolve now s) = filter (\<lambda>p. \<not> snd p \<le> now) (pending s)"
  "fired (advance resolve now s) = fired s @ sort_key snd (filter (\<lambda>p. snd p \<le> now) (pending s))"
  "next_handle (advance resolve now s) = next_handle s"
  "scrollTimeout (advance resolve now s) = scrollTimeout s"
  by (simp_all add: advance_def Let_def)

lemma scroll_listener_eq:
  "scroll_listener now s =
     s\<lparr>next_handle := next_handle s + 1,
       pending := filter (\<lambda>p. Some (fst p) \<noteq> scrollTimeout s) (pending s)
                  @ [(next_handle s, now + 200)],
       scrollTimeout := Some (next_handle s)\<rparr>"
  by (cases "scrollTimeout s") (simp_all add: scroll_listener_def clearTimeout_def setTimeout_def)

lemma scroll_listener_simps:
  "pending (scroll_listener now s) =
     filter (\<lambda>p. Some (fst p) \<noteq> scrollTimeout s) (pending s) @ [(next_handle s, now + 200)]"
  "fired (scroll_listener now s) = fired s"
  "next_handle (scroll_listener now s) = next_handle s + 1"
  "scrollTimeout (scroll_listener now s) = Some (next_handle s)"
  by (simp_all add: scroll_listener_eq)

lemma observer_callback_eq:
  "observer_callback now ms s =
     (if shouldModify ms
      then s\<lparr>next_handle := next_handle s + 1,
             pending := pending s @ [(next_handle s, now + 100)]\<rparr>
      else s)"
  by (simp add: observer_callback_def setTimeout_def)

lemma observer_callback_simps:
  "pending (observer_callback now ms s) =
     pending s @ (if shouldModify ms then [(next_handle s, now + 100)] else [])"
  "fired (observer_callback now ms s) = fired s"
  "next_handle (observer_callback now ms s) = next_handle s + (if shouldModify ms then 1 else 0)"
  "scrollTimeout (observer_callback now ms s) = scrollTimeout s"
  by (simp_all add: observer_callback_eq)

text \<open>
  The browser never hands out a handle twice: in every state the script can reach from
  \<open>start\<close>, the handles of the pending and of the fired timers are below the next handle.
\<close>

lemma handles_below_next_start:
  "list_all (\<lambda>p. fst p < next_handle (start d)) (pending (start d) @ fired (start d))"
  by (simp add: start_def)

lemma handles_below_next_advance:
  assumes "list_all (\<lambda>p. fst p < next_handle s) (pending s @ fired s)"
  shows "list_all (\<lambda>p. fst p < next_handle (advance resolve now s))
           (pending (advance resolve now s) @ fired (advance resolve now s))"
  using assms by (auto simp: advance_simps list_all_iff)

lemma handles_below_next_scroll:
  assumes "list_all (\<lambda>p. fst p < next_handle s) (pending s @ fired s)"
  shows "list_all (\<lambda>p. fst p < next_handle (scroll_listener now s))
           (pending (scroll_listener now s) @ fired (scroll_listener now s))"
  using assms by (auto simp: scroll_listener_simps list_all_iff less_Suc_eq)

lemma in_burst_first:
  assumes "list_all (\<lambda>p. fst p < next_handle s) (pending s @ fired s)"
  shows "in_burst (next_handle s) 0 t (scroll_listener t (advance resolve t s))"
proof -
  let ?N = "next_handle s"
  from assms have p: "filter (\<lambda>p. ?N \<le> fst p) (pending s) = []"
    and f: "filter (\<lambda>p. ?N \<le> fst p) (fired s) = []"
    by (force simp: list_all_iff filter_empty_conv)+
  have comm: "filter (\<lambda>p. ?N \<le> fst p) (filter Q xs) = filter Q (filter (\<lambda>p. ?N \<le> fst p) xs)"
    for Q and xs :: "(nat \<times> nat) list"
    by (induction xs) auto
  show ?thesis
    by (simp add: in_burst_def scroll_listener_simps advance_simps filter_sort comm p f
          del: filter_filter)
qed

lemma in_burst_next:
  assumes "in_burst N k t s" and "u < t + 200"
  shows "in_burst N (Suc k) u (scroll_listener u (advance resolve u s))"
proof -
  let ?new = "\<lambda>p::nat \<times> nat. N \<le> fst p"
  from assms(1) have nh: "next_handle s = N + k + 1" and st: "scrollTimeout s = Some (N + k)"
    and p: "filter ?new (pending s) = [(N + k, t + 200)]" and f: "filter ?new (fired s) = []"
    by (simp_all add: in_burst_def)
  have comm: "filter ?new (filter Q xs) = filter Q (filter ?new xs)" for Q and xs :: "(nat \<times> nat) list"
    by (induction xs) auto
  have 1: "filter ?new (filter (\<lambda>p. snd p \<le> u) (pending s)) = []"
    unfolding comm p using assms(2) by simp
  have 2: "filter ?new (filter (\<lambda>p. fst p \<noteq> N + k)
             (filter (\<lambda>p. \<not> snd p \<le> u) (pending s))) = []"
    unfolding comm p using assms(2) by simp
  show ?thesis
    by (simp add: in_burst_def scroll_listener_simps advance_simps filter_sort nh st f 1 2
          del: filter_filter)
qed

lemma in_burst_events:
  assumes "in_burst N k t s" and "burst (t # ts)"
  shows "in_burst N (k + length ts) (last (t # ts)) (scroll_events resolve ts s)"
  using assms
proof (induction ts arbitrary: k t s)
  case Nil
  then show ?case by simp
next
  case (Cons u ts)
  from Cons.prems(2) have u: "u < t + 200" and b: "burst (u # ts)" by simp_all
  from Cons.prems(1) u have "in_burst N (Suc k) u (scroll_listener u (advance resolve u s))"
    by (rule in_burst_next)
  from Cons.IH [OF this b] show ?case by simp
qed

lemma in_burst_end:
  assumes "in_burst N k t s"
  shows "filter (\<lambda>p. N \<le> fst p) (fired (advance resolve T s))
           = (if t + 200 \<le> T then [(N + k, t + 200)] else [])"
    and "filter (\<lambda>p. N \<le> fst p) (pending (advance resolve T s))
           = (if t + 200 \<le> T then [] else [(N + k, t + 200)])"
proof -
  let ?new = "\<lambda>p::nat \<times> nat. N \<le> fst p"
  from assms have p: "filter ?new (pending s) = [(N + k, t + 200)]"
    and f: "filter ?new (fired s) = []"
    by (simp_all add: in_burst_def)
  have comm: "filter ?new (filter Q xs) = filter Q (filter ?new xs)" for Q and xs :: "(nat \<times> nat) list"
    by (induction xs) auto
  show "filter ?new (fired (advance resolve T s))
           = (if t + 200 \<le> T then [(N + k, t + 200)] else [])"
    by (simp add: advance_simps filter_sort f comm p del: filter_filter)
  show "filter ?new (pending (advance resolve T s))
           = (if t + 200 \<le> T then [] else [(N + k, t + 200)])"
    by (simp add: advance_simps comm p del: filter_filter)
qed

lemma doc_simps:
  "doc (advance resolve now s)
   = fold (\<lambda>p. modifySearchResults resolve)
       (sort_key snd (filter (\<lambda>p. snd p \<le> now) (pending s))) (doc s)"
  "doc (scroll_listener now s) = doc s"
  "doc (observer_callback now ms s) = doc s"
  by (simp_all add: advance_def Let_def scroll_listener_eq observer_callback_eq)

lemma fold_modify_nonempty:
  "X \<noteq> [] \<Longrightarrow>
   fold (\<lambda>p. modifySearchResults resolve) X d = modifySearchResults resolve d"
proof (induction X arbitrary: d)
  case Nil
  then show ?case by simp
next
  case (Cons x X)
  show ?case
  proof (cases "X = []")
    case True
    then show ?thesis by simp
  next
    case False
    then have "fold (\<lambda>p. modifySearchResults resolve) X (modifySearchResults resolve d)
               = modifySearchResults resolve (modifySearchResults resolve d)"
      by (rule Cons.IH)
    then show ?thesis by (simp add: modify_idem)
  qed
qed

lemma since_start: "since resolve s (next_handle s) s"
  by (simp add: since_def)

lemma since_advance:
  assumes "since resolve s0 N s"
  shows "since resolve s0 N (advance resolve now s)"
proof -
  from assms obtain X where n: "N \<le> next_handle s" and f: "fired s = fired s0 @ X"
    and d: "doc s = fold (\<lambda>p. modifySearchResults resolve) X (doc s0)"
    and o: "\<forall>p\<in>set X \<union> set (pending s). p \<in> set (pending s0) \<or> N \<le> fst p"
    unfolding since_def by blast
  let ?D = "sort_key snd (filter (\<lambda>p. snd p \<le> now) (pending s))"
  have 1: "fired (advance resolve now s) = fired s0 @ (X @ ?D)"
    by (simp add: advance_simps f)
  have 2: "doc (advance resolve now s)
           = fold (\<lambda>p. modifySearchResults resolve) (X @ ?D) (doc s0)"
    by (simp add: doc_simps d)
  have 3: "\<forall>p\<in>set (X @ ?D) \<union> set (pending (advance resolve now s)).
             p \<in> set (pending s0) \<or> N \<le> fst p"
    using o by (auto simp: advance_simps)
  from n 1 2 3 show ?thesis
    unfolding since_def by (auto simp: advance_simps)
qed

lemma since_scroll_listener:
  assumes "since resolve s0 N s"
  shows "since resolve s0 N (scroll_listener now s)"
proof -
  from assms obtain X where n: "N \<le> next_handle s" and f: "fired s = fired s0 @ X"
    and d: "doc s = fold (\<lambda>p. modifySearchResults resolve) X (doc s0)"
    and o: "\<forall>p\<in>set X \<union> set (pending s). p \<in> set (pending s0) \<or> N \<le> fst p"
    unfolding since_def by blast
  have 3: "\<forall>p\<in>set X \<union> set (pending (scroll_listener now s)).
             p \<in> set (pending s0) \<or> N \<le> fst p"
    using o n by (auto simp: scroll_listener_simps)
  from n f d 3 show ?thesis
    unfolding since_def by (auto simp: scroll_listener_simps doc_simps)
qed

lemma since_observer_callback:
  assumes "since resolve s0 N s"
  shows "since resolve s0 N (observer_callback now ms s)"
proof -
  from assms obtain X where n: "N \<le> next_handle s" and f: "fired s = fired s0 @ X"
    and d: "doc s = fold (\<lambda>p. modifySearchResults resolve) X (doc s0)"
    and o: "\<forall>p\<in>set X \<union> set (pending s). p \<in> set (pending s0) \<or> N \<le> fst p"
    unfolding since_def by blast
  have 3: "\<forall>p\<in>set X \<union> set (pending (observer_callback now ms s)).
             p \<in> set (pending s0) \<or> N \<le> fst p"
    using o n by (auto simp: observer_callback_simps)
  from n f d 3 show ?thesis
    unfolding since_def by (auto simp: observer_callback_simps doc_simps)
qed

lemma since_scroll_events:
  "since resolve s0 N s \<Longrightarrow> since resolve s0 N (scroll_events resolve ts s)"
  by (induction ts arbitrary: s) (simp_all add: since_advance since_scroll_listener)

lemma since_mutation_batches:
  "since resolve s0 N s \<Longrightarrow> since resolve s0 N (mutation_batches resolve bs s)"
proof (induction bs arbitrary: s)
  case Nil
  then show ?case by simp
next
  case (Cons b bs)
  obtain t ms where b: "b = (t, ms)" by (cases b)
  from Cons.prems have "since resolve s0 N (observer_callback t ms (advance resolve t s))"
    by (intro since_observer_callback since_advance)
  then show ?case by (simp add: b Cons.IH)
qed

text \<open>
  From the timers with new handles that a run has fired to the document it leaves.
\<close>

lemma since_effect:
  assumes "since resolve s N s'"
    and "list_all (\<lambda>p. fst p < N) (pending s @ fired s)"
    and "filter (\<lambda>p. N \<le> fst p) (fired s') = F"
  shows "doc s' = fold (\<lambda>p. modifySearchResults resolve)
                    (drop (length (fired s)) (fired s')) (doc s)"
    and "F \<noteq> [] \<Longrightarrow> doc s' = modifySearchResults resolve (doc s)"
    and "pending s = [] \<Longrightarrow> fired s' = fired s @ F"
    and "pending s = [] \<Longrightarrow> doc s' = fold (\<lambda>p. modifySearchResults resolve) F (doc s)"
proof -
  from assms(1) obtain X where f: "fired s' = fired s @ X"
    and d: "doc s' = fold (\<lambda>p. modifySearchResults resolve) X (doc s)"
    and o: "\<forall>p\<in>set X. p \<in> set (pending s) \<or> N \<le> fst p"
    unfolding since_def by blast
  from assms(2) have "filter (\<lambda>p. N \<le> fst p) (fired s) = []"
    by (force simp: list_all_iff filter_empty_conv)
  with f assms(3) have F: "filter (\<lambda>p. N \<le> fst p) X = F" by simp
  from f d show "doc s' = fold (\<lambda>p. modifySearchResults resolve)
                    (drop (length (fired s)) (fired s')) (doc s)"
    by simp
  show "doc s' = modifySearchResults resolve (doc s)" if "F \<noteq> []"
  proof -
    from that F have "X \<noteq> []" by auto
    with d show ?thesis by (simp add: fold_modify_nonempty)
  qed
  have X: "X = F" if "pending s = []"
  proof -
    from that o have "\<forall>p\<in>set X. N \<le> fst p" by simp
    then have "filter (\<lambda>p. N \<le> fst p) X = X" by (simp add: filter_id_conv)
    with F show ?thesis by simp
  qed
  from X f show "fired s' = fired s @ F" if "pending s = []" using that by simp
  from X d show "doc s' = fold (\<lambda>p. modifySearchResults resolve) F (doc s)"
    if "pending s = []" using that by simp
qed

text \<open>
  C8. A scroll event cancels the timer named by \<^verbatim>\<open>scrollTimeout\<close> and sets a new one, due
  200ms later. After a burst of scroll events, of the timers set during the burst only
  the one of the last event is left, and it fires once, 200ms after that event. Every
  timer that fires runs \<^verbatim>\<open>modifySearchResults\<close> on the document, so once that time has come
  the document is the rewritten one; on a page with no other timer pending, the burst
  leaves the document as it is until then and rewrites it exactly once.
\<close>

theorem scroll_burst_one_rescan:
  assumes "list_all (\<lambda>p. fst p < next_handle s) (pending s @ fired s)"
    and "ts \<noteq> []" and "burst ts"
  shows "scroll_listener now s =
           s\<lparr>next_handle := next_handle s + 1,
             pending := filter (\<lambda>p. Some (fst p) \<noteq> scrollTimeout s) (pending s)
                        @ [(next_handle s, now + 200)],
             scrollTimeout := Some (next_handle s)\<rparr>
         \<and> filter (\<lambda>p. next_handle s \<le> fst p)
             (fired (advance resolve T (scroll_events resolve ts s)))
           = (if last ts + 200 \<le> T
              then [(next_handle s + (length ts - 1), last ts + 200)] else [])
         \<and> filter (\<lambda>p. next_handle s \<le> fst p)
             (pending (advance resolve T (scroll_events resolve ts s)))
           = (if last ts + 200 \<le> T
              then [] else [(next_handle s + (length ts - 1), last ts + 200)])
         \<and> doc (advance resolve T (scroll_events resolve ts s))
           = fold (\<lambda>p. modifySearchResults resolve)
               (drop (length (fired s)) (fired (advance resolve T (scroll_events resolve ts s))))
               (doc s)
         \<and> (last ts + 200 \<le> T \<longrightarrow>
              doc (advance resolve T (scroll_events resolve ts s))
              = modifySearchResults resolve (doc s))
         \<and> (pending s = [] \<longrightarrow>
              fired (advance resolve T (scroll_events resolve ts s))
              = fired s @ (if last ts + 200 \<le> T
                           then [(next_handle s + (length ts - 1), last ts + 200)] else [])
              \<and> doc (advance resolve T (scroll_events resolve ts s))
                = (if last ts + 200 \<le> T then modifySearchResults resolve (doc s) else doc s))"
proof -
  let ?s' = "advance resolve T (scroll_events resolve ts s)"
  let ?F = "if last ts + 200 \<le> T
            then [(next_handle s + (length ts - 1), last ts + 200)] else []"
  from assms(2) obtain t us where ts: "ts = t # us" by (cases ts) auto
  let ?s1 = "scroll_listener t (advance resolve t s)"
  have "in_burst (next_handle s) 0 t ?s1"
    using assms(1) by (rule in_burst_first)
  moreover from assms(3) ts have "burst (t # us)" by simp
  ultimately have "in_burst (next_handle s) (0 + length us) (last (t # us))
      (scroll_events resolve us ?s1)"
    by (rule in_burst_events)
  then have "in_burst (next_handle s) (length ts - 1) (last ts) (scroll_events resolve ts s)"
    by (simp add: ts)
  note e = in_burst_end [OF this, of resolve T]
  have 1: "scroll_listener now s =
           s\<lparr>next_handle := next_handle s + 1,
             pending := filter (\<lambda>p. Some (fst p) \<noteq> scrollTimeout s) (pending s)
                        @ [(next_handle s, now + 200)],
             scrollTimeout := Some (next_handle s)\<rparr>"
    by (rule scroll_listener_eq)
  have 2: "filter (\<lambda>p. next_handle s \<le> fst p) (fired ?s') = ?F"
    by (rule e(1))
  have 3: "filter (\<lambda>p. next_handle s \<le> fst p) (pending ?s')
           = (if last ts + 200 \<le> T
              then [] else [(next_handle s + (length ts - 1), last ts + 200)])"
    by (rule e(2))
  have si: "since resolve s (next_handle s) ?s'"
    by (intro since_advance since_scroll_events since_start)
  note eff = since_effect [OF si assms(1) 2]
  have 4: "doc ?s' = fold (\<lambda>p. modifySearchResults resolve)
               (drop (length (fired s)) (fired ?s')) (doc s)"
    by (rule eff(1))
  have 5: "last ts + 200 \<le> T \<longrightarrow> doc ?s' = modifySearchResults resolve (doc s)"
    using eff(2) by simp
  have 6: "pending s = [] \<longrightarrow>
              fired ?s' = fired s @ ?F
              \<and> doc ?s' = (if last ts + 200 \<le> T
                           then modifySearchResults resolve (doc s) else doc s)"
  proof
    assume p: "pending s = []"
    from eff(3) [OF p] have a: "fired ?s' = fired s @ ?F" .
    from eff(4) [OF p]
    have "doc ?s' = (if last ts + 200 \<le> T
                     then modifySearchResults resolve (doc s) else doc s)"
      by (simp split: if_splits)
    with a show "fired ?s' = fired s @ ?F
              \<and> doc ?s' = (if last ts + 200 \<le> T
                           then modifySearchResults resolve (doc s) else doc s)" ..
  qed
  from 1 2 3 4 5 6 show ?thesis by (intro conjI)
qed

theorem scroll_burst_one_rescan_witness:
  "list_all (\<lambda>p. fst p < next_handle (start fresh_page))
     (pending (start fresh_page) @ fired (start fresh_page))
   \<and> burst [0, 50, 120, 319]
   \<and> pending (start fresh_page) = []
   \<and> fired (advance example_resolve 1000
        (scroll_events example_resolve [0, 50, 120, 319] (start fresh_page))) = [(4, 519)]
   \<and> doc (advance example_resolve 1000
        (scroll_events example_resolve [0, 50, 120, 319] (start fresh_page)))
     = modifySearchResults example_resolve fresh_page
   \<and> getAttribute (attrs (fresh_page ! 2)) ''target'' = None
   \<and> getAttribute (attrs (modifySearchResults example_resolve fresh_page ! 2)) ''target''
     = Some ''_blank''
   \<and> fired (advance example_resolve 518
        (scroll_events example_resolve [0, 50, 120, 319] (start fresh_page))) = []
   \<and> doc (advance example_resolve 518
        (scroll_events example_resolve [0, 50, 120, 319] (start fresh_page))) = fresh_page"
proof -
  have h: "list_all (\<lambda>p. fst p < next_handle (start fresh_page))
     (pending (start fresh_page) @ fired (start fresh_page))"
    by (simp add: start_def)
  have n: "[0, 50, 120, 319] \<noteq> ([] :: nat list)" by simp
  have b: "burst [0, 50, 120, 319]" by simp
  have p: "pending (start fresh_page) = []" by (simp add: start_def)
  have st: "fired (start fresh_page) = []" "doc (start fresh_page) = fresh_page"
    "next_handle (start fresh_page) = 1"
    by (simp_all add: start_def)
  have t0: "getAttribute (attrs (fresh_page ! 2)) ''target'' = None" by code_simp
  have t1: "getAttribute (attrs (modifySearchResults example_resolve fresh_page ! 2)) ''target''
     = Some ''_blank''" by code_simp
  from scroll_burst_one_rescan [OF h n b, of 0 example_resolve 1000, THEN conjunct2]
    scroll_burst_one_rescan [OF h n b, of 0 example_resolve 518, THEN conjunct2]
    h b p t0 t1
  show ?thesis by (simp add: st)
qed

section \<open>The mutation observer\<close>

lemma fold_shouldModify:
  "fold (\<lambda>mutation b.
           if mutation_type mutation = ChildList \<and> length (addedNodes mutation) > 0
           then True else b) ms b
   = (b \<or> list_ex (\<lambda>m. mutation_type m = ChildList \<and> addedNodes m \<noteq> []) ms)"
  by (induction ms arbitrary: b) auto

lemma shouldModify_iff:
  "shouldModify ms = list_ex (\<lambda>m. mutation_type m = ChildList \<and> addedNodes m \<noteq> []) ms"
  unfolding shouldModify_def fold_shouldModify by simp

lemma handles_below_next_observer:
  assumes "list_all (\<lambda>p. fst p < next_handle s) (pending s @ fired s)"
  shows "list_all (\<lambda>p. fst p < next_handle (observer_callback now ms s))
           (pending (observer_callback now ms s) @ fired (observer_callback now ms s))"
  using assms by (auto simp: observer_callback_simps list_all_iff less_Suc_eq)

lemma filter_split_sorted:
  "sorted (map snd xs) \<Longrightarrow>
   filter (\<lambda>p. snd p \<le> u) xs @ filter (\<lambda>p. \<not> snd p \<le> u) xs = (xs :: (nat \<times> nat) list)"
proof (induction xs)
  case Nil
  then show ?case by simp
next
  case (Cons x xs)
  show ?case
  proof (cases "snd x \<le> u")
    case True
    with Cons show ?thesis by simp
  next
    case False
    with Cons.prems have "\<forall>p\<in>set xs. \<not> snd p \<le> u" by auto
    then have "filter (\<lambda>p. snd p \<le> u) xs = []" and "filter (\<lambda>p. \<not> snd p \<le> u) xs = xs"
      by (simp_all add: filter_empty_conv filter_id_conv)
    with False show ?thesis by simp
  qed
qed

lemma filter_handles_comm:
  "filter (\<lambda>p. N \<le> fst p) (filter Q xs) = filter Q (filter (\<lambda>p. N \<le> fst p) xs)"
  for xs :: "(nat \<times> nat) list"
  by (induction xs) auto

text \<open>
  Time passing moves timers from the pending list to the fired list and loses none; the
  timers set since the next handle was \<open>N\<close> stay in the order of their due times.
\<close>

lemma advance_keeps_timers:
  assumes "sorted (map snd (filter (\<lambda>p. N \<le> fst p) (pending s)))"
  shows "filter (\<lambda>p. N \<le> fst p) (fired (advance resolve u s))
           @ filter (\<lambda>p. N \<le> fst p) (pending (advance resolve u s))
         = filter (\<lambda>p. N \<le> fst p) (fired s) @ filter (\<lambda>p. N \<le> fst p) (pending s)"
    and "filter (\<lambda>p. N \<le> fst p) (pending (advance resolve u s))
         = filter (\<lambda>p. \<not> snd p \<le> u) (filter (\<lambda>p. N \<le> fst p) (pending s))"
proof -
  let ?P = "filter (\<lambda>p. N \<le> fst p) (pending s)"
  have "sorted (map snd (filter (\<lambda>p. snd p \<le> u) ?P))"
    using assms by (rule sorted_filter)
  then have srt: "sort_key snd (filter (\<lambda>p. snd p \<le> u) ?P) = filter (\<lambda>p. snd p \<le> u) ?P"
    by (rule sort_key_id_if_sorted)
  have f: "filter (\<lambda>p. N \<le> fst p) (fired (advance resolve u s))
        = filter (\<lambda>p. N \<le> fst p) (fired s) @ filter (\<lambda>p. snd p \<le> u) ?P"
    by (simp add: advance_simps filter_sort filter_handles_comm srt del: filter_filter)
  show p: "filter (\<lambda>p. N \<le> fst p) (pending (advance resolve u s))
        = filter (\<lambda>p. \<not> snd p \<le> u) ?P"
    by (simp add: advance_simps filter_handles_comm del: filter_filter)
  show "filter (\<lambda>p. N \<le> fst p) (fired (advance resolve u s))
           @ filter (\<lambda>p. N \<le> fst p) (pending (advance resolve u s))
         = filter (\<lambda>p. N \<le> fst p) (fired s) @ ?P"
    unfolding f p using filter_split_sorted [OF assms, of u] by simp
qed

lemma mutation_batches_timers:
  assumes "sorted (map fst bs)"
    and "N \<le> next_handle s"
    and "sorted (map snd (filter (\<lambda>p. N \<le> fst p) (pending s)))"
    and "\<forall>p\<in>set (filter (\<lambda>p. N \<le> fst p) (pending s)). \<forall>b\<in>set bs. snd p \<le> fst b + 100"
  shows "filter (\<lambda>p. N \<le> fst p) (fired (mutation_batches resolve bs s))
           @ filter (\<lambda>p. N \<le> fst p) (pending (mutation_batches resolve bs s))
         = filter (\<lambda>p. N \<le> fst p) (fired s) @ filter (\<lambda>p. N \<le> fst p) (pending s)
           @ scheduled_rescans (next_handle s) bs
         \<and> sorted (map snd (filter (\<lambda>p. N \<le> fst p) (pending (mutation_batches resolve bs s))))"
  using assms
proof (induction bs arbitrary: s)
  case Nil
  then show ?case by simp
next
  case (Cons b bs)
  obtain t ms where b: "b = (t, ms)" by (cases b)
  let ?new = "\<lambda>p::nat \<times> nat. N \<le> fst p"
  let ?a = "advance resolve t s"
  let ?s = "observer_callback t ms ?a"
  note adv = advance_keeps_timers [OF Cons.prems(3), of resolve t]
  have srt_a: "sorted (map snd (filter ?new (pending ?a)))"
    unfolding adv(2) using Cons.prems(3) by (rule sorted_filter)
  have bound_a: "\<forall>p\<in>set (filter ?new (pending ?a)). snd p \<le> t + 100"
    unfolding adv(2) using Cons.prems(4) by (auto simp: b)
  have nh: "next_handle ?s = next_handle s + (if shouldModify ms then 1 else 0)"
    by (simp add: observer_callback_simps advance_simps)
  have new_s: "filter ?new (pending ?s)
      = filter ?new (pending ?a) @ (if shouldModify ms then [(next_handle s, t + 100)] else [])"
    using Cons.prems(2) by (simp add: observer_callback_simps advance_simps)
  have 1: "sorted (map fst bs)" using Cons.prems(1) by simp
  have 2: "N \<le> next_handle ?s" using Cons.prems(2) nh by simp
  have 3: "sorted (map snd (filter ?new (pending ?s)))"
    unfolding new_s using srt_a bound_a by (auto simp: sorted_append)
  have 4: "\<forall>p\<in>set (filter ?new (pending ?s)). \<forall>c\<in>set bs. snd p \<le> fst c + 100"
  proof (intro ballI)
    fix p c
    assume p: "p \<in> set (filter ?new (pending ?s))" and c: "c \<in> set bs"
    from c Cons.prems(1) have tc: "t \<le> fst c" by (auto simp: b)
    from p have "p \<in> set (filter ?new (pending ?a)) \<or> p = (next_handle s, t + 100)"
      unfolding new_s by (auto split: if_splits)
    then show "snd p \<le> fst c + 100"
    proof
      assume "p \<in> set (filter ?new (pending ?a))"
      with bound_a have "snd p \<le> t + 100" by blast
      with tc show ?thesis by simp
    next
      assume "p = (next_handle s, t + 100)"
      with tc show ?thesis by simp
    qed
  qed
  note IH = Cons.IH [OF 1 2 3 4]
  have sched: "(if shouldModify ms then [(next_handle s, t + 100)] else [])
        @ scheduled_rescans (next_handle ?s) bs
      = scheduled_rescans (next_handle s) (b # bs)"
    by (simp add: b nh)
  have "filter ?new (fired (mutation_batches resolve (b # bs) s))
           @ filter ?new (pending (mutation_batches resolve (b # bs) s))
      = filter ?new (fired ?s) @ filter ?new (pending ?s) @ scheduled_rescans (next_handle ?s) bs"
    using IH by (simp add: b)
  also have "\<dots> = (filter ?new (fired ?a) @ filter ?new (pending ?a))
      @ (if shouldModify ms then [(next_handle s, t + 100)] else [])
      @ scheduled_rescans (next_handle ?s) bs"
    unfolding new_s by (simp add: observer_callback_simps)
  also have "\<dots> = filter ?new (fired s) @ filter ?new (pending s)
      @ scheduled_rescans (next_handle s) (b # bs)"
    unfolding adv(1) sched by simp
  finally show ?case using IH by (simp add: b)
qed


lemma scheduled_rescans_due:
  "p \<in> set (scheduled_rescans N bs) \<Longrightarrow> \<exists>b\<in>set bs. shouldModify (snd b) \<and> snd p = fst b + 100"
  by (induction N bs rule: scheduled_rescans.induct) (auto split: if_splits)

lemma scheduled_rescans_dues:
  "map snd (scheduled_rescans N bs)
   = map (\<lambda>b. fst b + 100) (filter (\<lambda>b. shouldModify (snd b)) bs)"
  by (induction N bs rule: scheduled_rescans.induct) auto

lemma scheduled_rescans_handles:
  "map fst (scheduled_rescans N bs)
   = [N ..< N + length (filter (\<lambda>b. shouldModify (snd b)) bs)]"
proof (induction N bs rule: scheduled_rescans.induct)
  case (1 N)
  then show ?case by simp
next
  case (2 N t ms bs)
  then show ?case
    by (cases "shouldModify ms") (simp_all add: upt_conv_Cons del: upt_Suc)
qed

lemma scheduled_rescans_empty:
  "(scheduled_rescans N bs = []) = (\<not> list_ex (\<lambda>b. shouldModify (snd b)) bs)"
proof -
  have "(scheduled_rescans N bs = []) = (map snd (scheduled_rescans N bs) = [])"
    by simp
  also have "\<dots> = (filter (\<lambda>b. shouldModify (snd b)) bs = [])"
    unfolding scheduled_rescans_dues by simp
  also have "\<dots> = (\<not> list_ex (\<lambda>b. shouldModify (snd b)) bs)"
    by (simp add: filter_empty_conv list_ex_iff)
  finally show ?thesis .
qed

text \<open>
  C9. The observer's callback sets a timer, due 100ms later, exactly when the batch holds a
  \<^verbatim>\<open>childList\<close> record with at least one added node of any kind, and it removes no timer.
  Over a run of batches every qualifying batch has a timer of its own, with a handle of
  its own, and every one of these timers fires and runs \<^verbatim>\<open>modifySearchResults\<close> on the
  document: none is cancelled or replaced by a later batch. Batches that do not qualify
  leave the document alone.
\<close>

theorem observer_schedules_per_batch:
  assumes "list_all (\<lambda>p. fst p < next_handle s) (pending s @ fired s)"
    and "sorted (map fst bs)"
  shows "observer_callback now ms s =
           (if list_ex (\<lambda>m. mutation_type m = ChildList \<and> addedNodes m \<noteq> []) ms
            then s\<lparr>next_handle := next_handle s + 1,
                   pending := pending s @ [(next_handle s, now + 100)]\<rparr>
            else s)
         \<and> filter (\<lambda>p. next_handle s \<le> fst p)
               (fired (advance resolve T (mutation_batches resolve bs s)))
             @ filter (\<lambda>p. next_handle s \<le> fst p)
                 (pending (advance resolve T (mutation_batches resolve bs s)))
           = scheduled_rescans (next_handle s) bs
         \<and> (list_all (\<lambda>b. fst b + 100 \<le> T) bs \<longrightarrow>
              filter (\<lambda>p. next_handle s \<le> fst p)
                (fired (advance resolve T (mutation_batches resolve bs s)))
              = scheduled_rescans (next_handle s) bs)
         \<and> map snd (scheduled_rescans (next_handle s) bs)
           = map (\<lambda>b. fst b + 100) (filter (\<lambda>b. shouldModify (snd b)) bs)
         \<and> map fst (scheduled_rescans (next_handle s) bs)
           = [next_handle s ..< next_handle s + length (filter (\<lambda>b. shouldModify (snd b)) bs)]
         \<and> doc (advance resolve T (mutation_batches resolve bs s))
           = fold (\<lambda>p. modifySearchResults resolve)
               (drop (length (fired s))
                  (fired (advance resolve T (mutation_batches resolve bs s))))
               (doc s)
         \<and> (list_all (\<lambda>b. fst b + 100 \<le> T) bs \<and> list_ex (\<lambda>b. shouldModify (snd b)) bs \<longrightarrow>
              doc (advance resolve T (mutation_batches resolve bs s))
              = modifySearchResults resolve (doc s))
         \<and> (pending s = [] \<and> list_all (\<lambda>b. fst b + 100 \<le> T) bs \<longrightarrow>
              fired (advance resolve T (mutation_batches resolve bs s))
              = fired s @ scheduled_rescans (next_handle s) bs
              \<and> doc (advance resolve T (mutation_batches resolve bs s))
                = fold (\<lambda>p. modifySearchResults resolve)
                    (scheduled_rescans (next_handle s) bs) (doc s))
         \<and> (pending s = [] \<and> \<not> list_ex (\<lambda>b. shouldModify (snd b)) bs \<longrightarrow>
              fired (advance resolve T (mutation_batches resolve bs s)) = fired s
              \<and> doc (advance resolve T (mutation_batches resolve bs s)) = doc s)"
proof -
  let ?N = "next_handle s"
  let ?new = "\<lambda>p::nat \<times> nat. ?N \<le> fst p"
  let ?m = "mutation_batches resolve bs s"
  let ?s' = "advance resolve T ?m"
  from assms(1) have p0: "filter ?new (pending s) = []" and f0: "filter ?new (fired s) = []"
    by (force simp: list_all_iff filter_empty_conv)+
  have "filter ?new (fired ?m) @ filter ?new (pending ?m)
         = filter ?new (fired s) @ filter ?new (pending s) @ scheduled_rescans ?N bs
        \<and> sorted (map snd (filter ?new (pending ?m)))"
    using assms(2) by (rule mutation_batches_timers) (simp_all add: p0)
  then have all: "filter ?new (fired ?m) @ filter ?new (pending ?m) = scheduled_rescans ?N bs"
    and srt: "sorted (map snd (filter ?new (pending ?m)))"
    by (simp_all add: p0 f0)
  note adv = advance_keeps_timers [OF srt, of resolve T]
  from adv(1) all
  have 2: "filter ?new (fired ?s') @ filter ?new (pending ?s') = scheduled_rescans ?N bs"
    by simp
  have 3: "filter ?new (fired ?s') = scheduled_rescans ?N bs"
    if "list_all (\<lambda>b. fst b + 100 \<le> T) bs"
  proof -
    have "snd p \<le> T" if "p \<in> set (filter ?new (pending ?m))" for p
    proof -
      from that have "p \<in> set (scheduled_rescans ?N bs)"
        unfolding all [symmetric] by simp
      then obtain b where "b \<in> set bs" and "snd p = fst b + 100"
        using scheduled_rescans_due by blast
      with \<open>list_all (\<lambda>b. fst b + 100 \<le> T) bs\<close> show ?thesis
        by (simp add: list_all_iff)
    qed
    then have "filter ?new (pending ?s') = []"
      unfolding adv(2) by (simp add: filter_empty_conv)
    with 2 show ?thesis by simp
  qed
  have 1: "observer_callback now ms s =
           (if list_ex (\<lambda>m. mutation_type m = ChildList \<and> addedNodes m \<noteq> []) ms
            then s\<lparr>next_handle := next_handle s + 1,
                   pending := pending s @ [(next_handle s, now + 100)]\<rparr>
            else s)"
    unfolding observer_callback_eq shouldModify_iff ..
  from 3 have imp: "list_all (\<lambda>b. fst b + 100 \<le> T) bs \<longrightarrow>
      filter ?new (fired ?s') = scheduled_rescans ?N bs"
    by blast
  have 4: "map snd (scheduled_rescans ?N bs)
           = map (\<lambda>b. fst b + 100) (filter (\<lambda>b. shouldModify (snd b)) bs)"
    by (rule scheduled_rescans_dues)
  have 5: "map fst (scheduled_rescans ?N bs)
           = [?N ..< ?N + length (filter (\<lambda>b. shouldModify (snd b)) bs)]"
    by (rule scheduled_rescans_handles)
  have si: "since resolve s ?N ?s'"
    by (intro since_advance since_mutation_batches since_start)
  note eff = since_effect [OF si assms(1) refl]
  have 6: "doc ?s' = fold (\<lambda>p. modifySearchResults resolve)
               (drop (length (fired s)) (fired ?s')) (doc s)"
    by (rule eff(1))
  have 7: "list_all (\<lambda>b. fst b + 100 \<le> T) bs \<and> list_ex (\<lambda>b. shouldModify (snd b)) bs \<longrightarrow>
              doc ?s' = modifySearchResults resolve (doc s)"
  proof
    assume a: "list_all (\<lambda>b. fst b + 100 \<le> T) bs \<and> list_ex (\<lambda>b. shouldModify (snd b)) bs"
    then have "filter ?new (fired ?s') = scheduled_rescans ?N bs" using 3 by blast
    moreover from a have "scheduled_rescans ?N bs \<noteq> []"
      by (simp add: scheduled_rescans_empty)
    ultimately have "filter ?new (fired ?s') \<noteq> []" by simp
    then show "doc ?s' = modifySearchResults resolve (doc s)" by (rule eff(2))
  qed
  have 8: "pending s = [] \<and> list_all (\<lambda>b. fst b + 100 \<le> T) bs \<longrightarrow>
              fired ?s' = fired s @ scheduled_rescans ?N bs
              \<and> doc ?s' = fold (\<lambda>p. modifySearchResults resolve)
                    (scheduled_rescans ?N bs) (doc s)"
  proof
    assume a: "pending s = [] \<and> list_all (\<lambda>b. fst b + 100 \<le> T) bs"
    then have F: "filter ?new (fired ?s') = scheduled_rescans ?N bs" using 3 by blast
    from a have p: "pending s = []" ..
    have a: "fired ?s' = fired s @ scheduled_rescans ?N bs"
      using eff(3) [OF p] unfolding F .
    have b: "doc ?s' = fold (\<lambda>p. modifySearchResults resolve)
                    (scheduled_rescans ?N bs) (doc s)"
      using eff(4) [OF p] unfolding F .
    from a b
    show "fired ?s' = fired s @ scheduled_rescans ?N bs
              \<and> doc ?s' = fold (\<lambda>p. modifySearchResults resolve)
                    (scheduled_rescans ?N bs) (doc s)" ..
  qed
  have 9: "pending s = [] \<and> \<not> list_ex (\<lambda>b. shouldModify (snd b)) bs \<longrightarrow>
              fired ?s' = fired s \<and> doc ?s' = doc s"
  proof
    assume a: "pending s = [] \<and> \<not> list_ex (\<lambda>b. shouldModify (snd b)) bs"
    then have "scheduled_rescans ?N bs = []" by (simp add: scheduled_rescans_empty)
    with 2 have F: "filter ?new (fired ?s') = []" by simp
    from a have p: "pending s = []" ..
    have a: "fired ?s' = fired s"
      using eff(3) [OF p] unfolding F by simp
    have b: "doc ?s' = doc s"
      using eff(4) [OF p] unfolding F by simp
    from a b show "fired ?s' = fired s \<and> doc ?s' = doc s" ..
  qed
  from 1 2 imp 4 5 6 7 8 9 show ?thesis by (intro conjI)
qed

theorem observer_schedules_per_batch_witness:
  "list_all (\<lambda>p. fst p < next_handle (start fresh_page))
     (pending (start fresh_page) @ fired (start fresh_page))
   \<and> sorted (map fst example_batches) \<and> sorted (map fst (take 1 example_batches))
   \<and> pending (start fresh_page) = []
   \<and> list_all (\<lambda>b. fst b + 100 \<le> 500) example_batches
   \<and> map (\<lambda>b. shouldModify (snd b)) example_batches = [False, True, True]
   \<and> fired (advance example_resolve 500
          (mutation_batches example_resolve example_batches (start fresh_page)))
     = [(1, 110), (2, 140)]
   \<and> doc (advance example_resolve 500
          (mutation_batches example_resolve example_batches (start fresh_page)))
     = modifySearchResults example_resolve fresh_page
   \<and> getAttribute (attrs (fresh_page ! 2)) ''target'' = None
   \<and> getAttribute (attrs (modifySearchResults example_resolve fresh_page ! 2)) ''target''
     = Some ''_blank''
   \<and> fired (advance example_resolve 500
          (mutation_batches example_resolve (take 1 example_batches) (start fresh_page))) = []
   \<and> doc (advance example_resolve 500
          (mutation_batches example_resolve (take 1 example_batches) (start fresh_page)))
     = fresh_page"
proof -
  have h: "list_all (\<lambda>p. fst p < next_handle (start fresh_page))
     (pending (start fresh_page) @ fired (start fresh_page))"
    by (simp add: start_def)
  have s: "sorted (map fst example_batches)"
    by (simp add: example_batches_def)
  have s1: "sorted (map fst (take 1 example_batches))"
    by (simp add: example_batches_def)
  have p: "pending (start fresh_page) = []" by (simp add: start_def)
  have st: "fired (start fresh_page) = []" "doc (start fresh_page) = fresh_page"
    by (simp_all add: start_def)
  have l: "list_all (\<lambda>b. fst b + 100 \<le> 500) example_batches"
    by (simp add: example_batches_def)
  have q: "map (\<lambda>b. shouldModify (snd b)) example_batches = [False, True, True]"
    by (simp add: example_batches_def shouldModify_def)
  have e: "list_ex (\<lambda>b. shouldModify (snd b)) example_batches"
    by (simp add: example_batches_def shouldModify_def)
  have e1: "\<not> list_ex (\<lambda>b. shouldModify (snd b)) (take 1 example_batches)"
    by (simp add: example_batches_def shouldModify_def)
  have r: "scheduled_rescans (next_handle (start fresh_page)) example_batches
           = [(1, 110), (2, 140)]"
    by (simp add: example_batches_def shouldModify_def start_def)
  have t0: "getAttribute (attrs (fresh_page ! 2)) ''target'' = None" by code_simp
  have t1: "getAttribute (attrs (modifySearchResults example_resolve fresh_page ! 2)) ''target''
     = Some ''_blank''" by code_simp
  note all = observer_schedules_per_batch [OF h s, of 0 "[]" example_resolve 500]
  note first = observer_schedules_per_batch [OF h s1, of 0 "[]" example_resolve 500]
  note all7 = all [THEN conjunct2, THEN conjunct2, THEN conjunct2, THEN conjunct2,
    THEN conjunct2, THEN conjunct2, THEN conjunct1]
  note all8 = all [THEN conjunct2, THEN conjunct2, THEN conjunct2, THEN conjunct2,
    THEN conjunct2, THEN conjunct2, THEN conjunct2, THEN conjunct1]
  note first9 = first [THEN conjunct2, THEN conjunct2, THEN conjunct2, THEN conjunct2,
    THEN conjunct2, THEN conjunct2, THEN conjunct2, THEN conjunct2]
  from all7 l e have d: "doc (advance example_resolve 500
          (mutation_batches example_resolve example_batches (start fresh_page)))
     = modifySearchResults example_resolve fresh_page"
    unfolding st by blast
  from all8 p l have f: "fired (advance example_resolve 500
          (mutation_batches example_resolve example_batches (start fresh_page)))
     = [(1, 110), (2, 140)]"
    unfolding st r by simp
  from first9 p e1 have n: "fired (advance example_resolve 500
          (mutation_batches example_resolve (take 1 example_batches) (start fresh_page))) = []
     \<and> doc (advance example_resolve 500
          (mutation_batches example_resolve (take 1 example_batches) (start fresh_page)))
       = fresh_page"
    unfolding st by blast
  from h s s1 p l q f d t0 t1 n show ?thesis by (intro conjI) simp_all
qed

end
